theory Spec2Isabelle
  imports Main "HOL-Library.Word"
begin

section \<open>The Perplexity content script (src/content/perplexity.js)\<close>

text \<open>
  A shallow embedding of the content script. A JavaScript string is the list of its
  UTF-16 code units, so \<open>length\<close> is the script's \<open>.length\<close>. Everything the script reads from
  its surroundings (the page's DOM, the clock, the state of the extension context, the
  behaviour of the host channel) is an explicit input of the function that reads it.
\<close>

subsection \<open>Strings and the DOM\<close>

type_synonym code_unit = "16 word"

type_synonym jsstring = "code_unit list"

text \<open>A string written in ASCII, as a JavaScript string.\<close>

definition js :: "string \<Rightarrow> jsstring" where
  "js s = map of_char s"

type_synonym selector = jsstring

text \<open>The properties of an element that the script reads.\<close>

record element =
  node_id :: nat
  tagName :: jsstring
  isContentEditable :: bool
  innerText :: "jsstring option"

text \<open>
  The page at one instant, as the script sees it: the elements matching each selector,
  in document order.
\<close>

type_synonym dom = "selector \<Rightarrow> element list"

definition querySelectorAll :: "dom \<Rightarrow> selector \<Rightarrow> element list" where
  "querySelectorAll d sel = d sel"

definition querySelector :: "dom \<Rightarrow> selector \<Rightarrow> element option" where
  "querySelector d sel = (case d sel of [] \<Rightarrow> None | e # _ \<Rightarrow> Some e)"

text \<open>
  The white space and line terminators that \<open>String.prototype.trim\<close> strips: TAB, LF,
  VT, FF, CR, SP, NBSP, U+1680, U+2000 to U+200A, LS, PS, U+202F, U+205F, U+3000 and
  U+FEFF. Each is a single code unit.
\<close>

definition is_space :: "code_unit \<Rightarrow> bool" where
  "is_space c =
    (c \<in> set [0x0009, 0x000A, 0x000B, 0x000C, 0x000D, 0x0020, 0x00A0, 0x1680,
               0x2028, 0x2029, 0x202F, 0x205F, 0x3000, 0xFEFF]
     \<or> (0x2000 \<le> c \<and> c \<le> 0x200A))"

definition trim :: "jsstring \<Rightarrow> jsstring" where
  "trim s = rev (dropWhile is_space (rev (dropWhile is_space s)))"

definition AI_TYPE :: jsstring where
  "AI_TYPE = js ''perplexity''"

subsection \<open>getLatestResponse\<close>

definition selectors :: "selector list" where
  \<open>selectors =
    [js ''[class*="answer-container"] [class*="prose"]'',
     js ''[class*="prose"]'',
     js ''div[class*="DefaultAnswer"]'',
     js ''div[class*="answer"]'',
     js ''main div[class*="col"] > div > div'']\<close>

text \<open>
  The \<open>for\<close> loop of \<open>getLatestResponse\<close> over a list of selectors: a selector is
  left behind when it matches nothing, when its last match has no \<open>innerText\<close>, and when
  the trimmed text has at most 10 code units.
\<close>

fun getLatestResponse_loop :: "dom \<Rightarrow> selector list \<Rightarrow> jsstring option" where
  "getLatestResponse_loop d [] = None"
| "getLatestResponse_loop d (sel # sels) =
    (let elements = querySelectorAll d sel in
     if length elements > 0 then
       (let lastElement = elements ! (length elements - 1) in
        case map_option trim (innerText lastElement) of
          None \<Rightarrow> getLatestResponse_loop d sels
        | Some text \<Rightarrow>
            if text \<noteq> [] \<and> length text > 10 then Some text
            else getLatestResponse_loop d sels)
     else getLatestResponse_loop d sels)"

definition getLatestResponse :: "dom \<Rightarrow> jsstring option" where
  "getLatestResponse d = getLatestResponse_loop d selectors"

subsection \<open>injectMessage: resolving the input and writing into it\<close>

text \<open>The second selector holds the two CJK characters U+554F and U+984C.\<close>

definition inputSelectors :: "selector list" where
  \<open>inputSelectors =
    [js ''textarea#ask-input'',
     js ''textarea[placeholder*="'' @ [0x554F, 0x984C] @ js ''"]'',
     js ''textarea[placeholder*="question"]'',
     js ''[contenteditable="true"]#ask-input'']\<close>

text \<open>The \<open>for\<close> loop that resolves \<open>inputEl\<close>: the first selector with a match wins.\<close>

fun inputEl_loop :: "dom \<Rightarrow> selector list \<Rightarrow> element option" where
  "inputEl_loop d [] = None"
| "inputEl_loop d (sel # sels) =
    (case querySelector d sel of
       Some inputEl \<Rightarrow> Some inputEl
     | None \<Rightarrow> inputEl_loop d sels)"

text \<open>What the script does to the page.\<close>

datatype dom_write =
    Focus element
  | SetValue element jsstring
  | SetTextContent element jsstring
  | DispatchInput element
  | DispatchKeydownEnter element

text \<open>
  \<open>injectMessage\<close> up to its \<open>await sleep(200)\<close>: either the thrown error's message,
  or the resolved element; and the writes made so far.
\<close>

definition injectMessage_begin :: "dom \<Rightarrow> jsstring \<Rightarrow> (jsstring + element) \<times> dom_write list" where
  "injectMessage_begin d text =
    (case inputEl_loop d inputSelectors of
       None \<Rightarrow> (Inl (js ''Could not find input field''), [])
     | Some inputEl \<Rightarrow>
         (Inr inputEl,
          Focus inputEl #
          (if tagName inputEl = (js ''TEXTAREA'') then [SetValue inputEl text, DispatchInput inputEl]
           else if isContentEditable inputEl then [SetTextContent inputEl text, DispatchInput inputEl]
           else [])))"

subsection \<open>Sending to the host\<close>

datatype outbound =
    CONTENT_SCRIPT_READY jsstring
  | RESPONSE_CAPTURED jsstring jsstring

datatype 'a completion = Normal 'a | Throw jsstring

text \<open>
  \<open>chrome.runtime.sendMessage\<close>: the environment decides whether the call throws (and with
  which message); otherwise the message is on its way.
\<close>

definition runtime_sendMessage :: "jsstring option \<Rightarrow> outbound \<Rightarrow> outbound list completion" where
  "runtime_sendMessage throws m = (case throws of Some e \<Rightarrow> Throw e | None \<Rightarrow> Normal [m])"

text \<open>\<open>safeSendMessage\<close>, given the value of \<open>isContextValid()\<close> at the call.\<close>

definition safeSendMessage :: "bool \<Rightarrow> jsstring option \<Rightarrow> outbound \<Rightarrow> outbound list completion" where
  "safeSendMessage valid throws m =
    (if \<not> valid then Normal []
     else case runtime_sendMessage throws m of
            Normal out \<Rightarrow> Normal out
          | Throw e \<Rightarrow> Normal [])"

subsection \<open>waitForStreamingComplete: one iteration\<close>

definition maxWait :: int where
  "maxWait = 600000"

definition checkInterval :: int where
  "checkInterval = 500"

definition stableThreshold :: nat where
  "stableThreshold = 4"

record session =
  previousContent :: jsstring
  stableCount :: nat
  startTime :: int

text \<open>What the loop reads at the top of an iteration, before the sleep.\<close>

record head_obs =
  now :: int
  ctxValid :: bool

text \<open>
  What the loop reads after the sleep: the value of \<open>getLatestResponse()\<close>, and, should
  it send, the state of the context and of the channel at that moment.
\<close>

record body_obs =
  response :: "jsstring option"
  ctxValidAtSend :: bool
  sendThrows :: "jsstring option"

datatype ending = Completed | TimedOut | Cancelled | Raised jsstring

text \<open>The \<open>while\<close> condition and the context check: \<open>Some\<close> when the loop is left there.\<close>

definition loop_head :: "session \<Rightarrow> head_obs \<Rightarrow> ending option" where
  "loop_head s h =
    (if \<not> (now h - startTime s < maxWait) then Some TimedOut
     else if \<not> ctxValid h then Some Cancelled
     else None)"

text \<open>The JavaScript \<open>x || ''\<close> for \<open>x\<close> a string or \<open>null\<close>.\<close>

definition or_empty :: "jsstring option \<Rightarrow> jsstring" where
  "or_empty x = (case x of None \<Rightarrow> [] | Some r \<Rightarrow> if r = [] then [] else r)"

datatype body_result =
    Finished ending "outbound list" jsstring
  | Continue session

text \<open>
  The rest of the iteration, from the sample to the assignment of \<open>previousContent\<close>,
  given \<open>lastCapturedContent\<close>: either the session returns (with what it sent and the new
  \<open>lastCapturedContent\<close>), or it goes on with new locals.
\<close>

definition loop_body :: "jsstring \<Rightarrow> session \<Rightarrow> body_obs \<Rightarrow> body_result" where
  "loop_body lc s b =
    (let currentContent = or_empty (response b) in
     if currentContent = previousContent s \<and> length currentContent > 0 then
       (let sc = stableCount s + 1 in
        if sc \<ge> stableThreshold then
          (if currentContent \<noteq> lc then
             (case safeSendMessage (ctxValidAtSend b) (sendThrows b)
                     (RESPONSE_CAPTURED AI_TYPE currentContent) of
                Normal out \<Rightarrow> Finished Completed out currentContent
              | Throw e \<Rightarrow> Finished (Raised e) [] currentContent)
           else Finished Completed [] lc)
        else Continue (s\<lparr>stableCount := sc, previousContent := currentContent\<rparr>))
     else Continue (s\<lparr>stableCount := 0, previousContent := currentContent\<rparr>))"

subsection \<open>One session from start to end\<close>

record tick =
  head :: head_obs
  body :: body_obs

record outcome =
  ending :: ending
  samples :: nat
  sent :: "outbound list"
  baseline :: jsstring

definition sampled :: "outcome \<Rightarrow> outcome" where
  "sampled r = r\<lparr>samples := Suc (samples r)\<rparr>"

text \<open>
  The loop over the observations of successive iterations. \<open>None\<close>: the observations ran
  out with the session still sampling. \<open>samples\<close> counts the samples taken, so a session
  that ends on its first sample has \<open>samples = 1\<close> and one stopped by the loop's head
  before any sample has \<open>samples = 0\<close>.
\<close>

fun sampling_loop :: "jsstring \<Rightarrow> session \<Rightarrow> tick list \<Rightarrow> outcome option" where
  "sampling_loop lc s [] = None"
| "sampling_loop lc s (t # ts) =
    (case loop_head s (head t) of
       Some e \<Rightarrow> Some \<lparr>ending = e, samples = 0, sent = [], baseline = lc\<rparr>
     | None \<Rightarrow>
        (case loop_body lc s (body t) of
           Finished e out lc' \<Rightarrow> Some \<lparr>ending = e, samples = 1, sent = out, baseline = lc'\<rparr>
         | Continue s' \<Rightarrow> map_option sampled (sampling_loop lc s' ts)))"

definition new_session :: "int \<Rightarrow> session" where
  "new_session t0 = \<lparr>previousContent = [], stableCount = 0, startTime = t0\<rparr>"

text \<open>
  A whole call of \<open>waitForStreamingComplete\<close> that is not refused, run to its end from
  \<open>lastCapturedContent = lc\<close> with \<open>Date.now() = t0\<close> at the start.
\<close>

definition capture :: "jsstring \<Rightarrow> int \<Rightarrow> tick list \<Rightarrow> outcome option" where
  "capture lc t0 ts = sampling_loop lc (new_session t0) ts"

subsection \<open>The script as a whole: its state and its entry points\<close>

datatype request =
    INJECT_MESSAGE jsstring
  | GET_LATEST_RESPONSE
  | OtherRequest jsstring

datatype reply =
    InjectReply bool "jsstring option"
  | ContentReply "jsstring option"

text \<open>
  The two module-level variables, every call suspended at an \<open>await\<close> (sampling sessions
  in their \<open>sleep(checkInterval)\<close>, injections in their \<open>sleep(200)\<close>), and what the
  script has put out so far: messages handed to the host, answers given through
  \<open>sendResponse\<close>, and writes to the page.
\<close>

record system =
  lastCapturedContent :: jsstring
  isCapturing :: bool
  sessions :: "session list"
  injections :: "element list"
  outbox :: "outbound list"
  replies :: "reply list"
  writes :: "dom_write list"

definition initial :: system where
  "initial = \<lparr>lastCapturedContent = [], isCapturing = False, sessions = [], injections = [],
              outbox = [], replies = [], writes = []\<rparr>"

text \<open>
  \<open>waitForStreamingComplete\<close> from the call to its first \<open>await\<close>, or to its return if it
  has one before; \<open>t0\<close> is the clock read into \<open>startTime\<close>, \<open>h\<close> what the first
  evaluation of the loop's head reads. The \<open>finally\<close> clears the flag on every exit.
\<close>

definition waitForStreamingComplete :: "system \<Rightarrow> int \<Rightarrow> head_obs \<Rightarrow> system" where
  "waitForStreamingComplete sys t0 h =
    (if isCapturing sys then sys
     else
       (let s = new_session t0 in
        case loop_head s h of
          Some e \<Rightarrow> sys\<lparr>isCapturing := False\<rparr>
        | None \<Rightarrow> sys\<lparr>isCapturing := True, sessions := sessions sys @ [s]\<rparr>))"

text \<open>
  The \<open>i\<close>-th suspended session wakes from its sleep, finishes the iteration and, if it
  goes on, evaluates the head of the next one (reading \<open>h\<close>) and sleeps again.
\<close>

definition session_wake :: "system \<Rightarrow> nat \<Rightarrow> body_obs \<Rightarrow> head_obs \<Rightarrow> system" where
  "session_wake sys i b h =
    (if i < length (sessions sys) then
       (let others = take i (sessions sys) @ drop (Suc i) (sessions sys) in
        case loop_body (lastCapturedContent sys) (sessions sys ! i) b of
          Finished e out lc \<Rightarrow>
            sys\<lparr>lastCapturedContent := lc, outbox := outbox sys @ out,
                sessions := others, isCapturing := False\<rparr>
        | Continue s' \<Rightarrow>
            (case loop_head s' h of
               Some e \<Rightarrow> sys\<lparr>sessions := others, isCapturing := False\<rparr>
             | None \<Rightarrow> sys\<lparr>sessions := (sessions sys)[i := s']\<rparr>))
     else sys)"

definition responseSelectors :: "selector list" where
  \<open>responseSelectors = [js ''[class*="answer"]'', js ''[class*="response"]'', js ''[class*="result"]'']\<close>

text \<open>An added node, as \<open>checkForResponse\<close> questions it.\<close>

record node =
  node_matches :: "selector \<Rightarrow> bool"
  node_querySelector :: "selector \<Rightarrow> element option"

fun checkForResponse_loop :: "node \<Rightarrow> selector list \<Rightarrow> bool" where
  "checkForResponse_loop n [] = False"
| "checkForResponse_loop n (sel # sels) =
    (if node_matches n sel \<or> node_querySelector n sel \<noteq> None then True
     else checkForResponse_loop n sels)"

definition checkForResponse :: "system \<Rightarrow> node \<Rightarrow> int \<Rightarrow> head_obs \<Rightarrow> system" where
  "checkForResponse sys n t0 h =
    (if isCapturing sys then sys
     else if checkForResponse_loop n responseSelectors then waitForStreamingComplete sys t0 h
     else sys)"

text \<open>
  The \<open>i\<close>-th suspended \<open>injectMessage\<close> wakes from \<open>sleep(200)\<close>: it presses Enter, calls
  \<open>waitForStreamingComplete\<close> and returns, which answers the request.
\<close>

definition injectMessage_resume :: "system \<Rightarrow> nat \<Rightarrow> int \<Rightarrow> head_obs \<Rightarrow> system" where
  "injectMessage_resume sys i t0 h =
    (if i < length (injections sys) then
       (let inputEl = injections sys ! i;
            sys1 = sys\<lparr>injections := take i (injections sys) @ drop (Suc i) (injections sys),
                       writes := writes sys @ [DispatchKeydownEnter inputEl]\<rparr>;
            sys2 = waitForStreamingComplete sys1 t0 h
        in sys2\<lparr>replies := replies sys2 @ [InjectReply True None]\<rparr>)
     else sys)"

text \<open>The \<open>chrome.runtime.onMessage\<close> listener, on the page as it is at that moment.\<close>

definition onMessage :: "system \<Rightarrow> dom \<Rightarrow> request \<Rightarrow> system" where
  "onMessage sys d req =
    (case req of
       INJECT_MESSAGE text \<Rightarrow>
         (case injectMessage_begin d text of
            (Inl err, ws) \<Rightarrow>
              sys\<lparr>writes := writes sys @ ws,
                  replies := replies sys @ [InjectReply False (Some err)]\<rparr>
          | (Inr inputEl, ws) \<Rightarrow>
              sys\<lparr>writes := writes sys @ ws, injections := injections sys @ [inputEl]\<rparr>)
     | GET_LATEST_RESPONSE \<Rightarrow>
         sys\<lparr>replies := replies sys @ [ContentReply (getLatestResponse d)]\<rparr>
     | OtherRequest ty \<Rightarrow> sys)"

text \<open>Everything that can make the script run.\<close>

datatype event =
    Message request dom
  | InjectWake nat int head_obs
  | NodeAdded node int head_obs
  | SessionWake nat body_obs head_obs

fun step :: "system \<Rightarrow> event \<Rightarrow> system" where
  "step sys (Message req d) = onMessage sys d req"
| "step sys (InjectWake i t0 h) = injectMessage_resume sys i t0 h"
| "step sys (NodeAdded n t0 h) = checkForResponse sys n t0 h"
| "step sys (SessionWake i b h) = session_wake sys i b h"

definition run :: "system \<Rightarrow> event list \<Rightarrow> system" where
  "run sys evs = foldl step sys evs"

subsection \<open>A simulated content stream\<close>

text \<open>
  The observations of a test that feeds the loop one sample per iteration: the clock
  advances by \<open>checkInterval\<close> with every sleep, the context stays valid and the channel
  works. An empty sample is what \<open>getLatestResponse\<close> reports as \<open>null\<close>.
\<close>

definition simulated_tick :: "int \<Rightarrow> nat \<Rightarrow> jsstring \<Rightarrow> tick" where
  "simulated_tick t0 k c =
    \<lparr>head = \<lparr>now = t0 + checkInterval * int k, ctxValid = True\<rparr>,
     body = \<lparr>response = (if c = [] then None else Some c), ctxValidAtSend = True,
             sendThrows = None\<rparr>\<rparr>"

fun simulated_from :: "int \<Rightarrow> nat \<Rightarrow> jsstring list \<Rightarrow> tick list" where
  "simulated_from t0 k [] = []"
| "simulated_from t0 k (c # cs) = simulated_tick t0 k c # simulated_from t0 (Suc k) cs"

definition simulated :: "int \<Rightarrow> jsstring list \<Rightarrow> tick list" where
  "simulated t0 cs = simulated_from t0 0 cs"

text \<open>The number of iterations that fit under the ceiling at that pace.\<close>

definition ceiling_ticks :: nat where
  "ceiling_ticks = nat (maxWait div checkInterval)"

text \<open>An answer that grows by one character with every sample.\<close>

definition growing :: "nat \<Rightarrow> jsstring list" where
  "growing n = map (\<lambda>k. replicate (Suc k) 0x41) [0..<n]"

subsection \<open>Notions used to state the properties\<close>

text \<open>The sample an iteration works with.\<close>

definition content :: "tick \<Rightarrow> jsstring" where
  "content t = or_empty (response (body t))"

text \<open>
  \<open>has_stable_run k cs\<close>: somewhere in \<open>cs\<close> there are \<open>k\<close> consecutive samples that are
  identical and not empty.
\<close>

fun has_stable_run :: "nat \<Rightarrow> jsstring list \<Rightarrow> bool" where
  "has_stable_run k [] = False"
| "has_stable_run k (c # cs) =
    ((c \<noteq> [] \<and> take k (c # cs) = replicate k c) \<or> has_stable_run k cs)"

text \<open>
  The locals after a run of samples none of which ended the session, and the condition
  under which none of them does.
\<close>

definition next_locals :: "session \<Rightarrow> jsstring \<Rightarrow> session" where
  "next_locals s c =
    s\<lparr>stableCount := (if c = previousContent s \<and> c \<noteq> [] then Suc (stableCount s) else 0),
      previousContent := c\<rparr>"

fun feed :: "session \<Rightarrow> jsstring list \<Rightarrow> session" where
  "feed s [] = s"
| "feed s (c # cs) = feed (next_locals s c) cs"

fun calm :: "session \<Rightarrow> jsstring list \<Rightarrow> bool" where
  "calm s [] = True"
| "calm s (c # cs) =
    ((c = previousContent s \<and> c \<noteq> [] \<longrightarrow> Suc (stableCount s) < stableThreshold)
     \<and> calm (next_locals s c) cs)"

text \<open>
  One session driven through the script's entry points: the call, then one wake-up per
  iteration, each reading the body of its own iteration and the head of the next; \<open>h\<close>
  is what the head after the last listed iteration reads.
\<close>

fun drive :: "system \<Rightarrow> head_obs \<Rightarrow> tick list \<Rightarrow> system" where
  "drive sys h [] = sys"
| "drive sys h [t] = session_wake sys 0 (body t) h"
| "drive sys h (t # u # ts) = drive (session_wake sys 0 (body t) (head u)) h (u # ts)"

definition session_run :: "system \<Rightarrow> int \<Rightarrow> head_obs \<Rightarrow> tick list \<Rightarrow> system" where
  "session_run sys t0 h ts =
    (case ts of [] \<Rightarrow> sys | t # _ \<Rightarrow> drive (waitForStreamingComplete sys t0 (head t)) h ts)"

subsection \<open>Notions used to state the selector laws\<close>

text \<open>The trimmed text of the last element matching a selector, if there is one.\<close>

definition last_text :: "dom \<Rightarrow> selector \<Rightarrow> jsstring option" where
  "last_text d sel = (case d sel of [] \<Rightarrow> None | _ \<Rightarrow> map_option trim (innerText (last (d sel))))"

text \<open>That text when it is long enough to be taken as an answer.\<close>

definition acceptable_text :: "dom \<Rightarrow> selector \<Rightarrow> jsstring option" where
  "acceptable_text d sel =
    (case last_text d sel of None \<Rightarrow> None | Some t \<Rightarrow> if length t > 10 then Some t else None)"

text \<open>
  Text extraction as the selector-priority law words it: the first selector with a match
  decides; the text of its last match is the sample if it is long enough, and the sample
  is empty otherwise.
\<close>

definition first_match_text :: "dom \<Rightarrow> selector list \<Rightarrow> jsstring option" where
  "first_match_text d sels =
    (case find (\<lambda>sel. d sel \<noteq> []) sels of None \<Rightarrow> None | Some sel \<Rightarrow> acceptable_text d sel)"

text \<open>
  A page on which the answer container still shows a short placeholder while an older
  answer is on display further down.
\<close>

definition placeholder_element :: element where
  "placeholder_element =
    \<lparr>node_id = 1, tagName = js ''DIV'', isContentEditable = False, innerText = Some (js ''Searching'')\<rparr>"

definition older_answer_element :: element where
  "older_answer_element =
    \<lparr>node_id = 2, tagName = js ''DIV'', isContentEditable = False,
     innerText = Some (js ''The answer is forty-two.'')\<rparr>"

definition placeholder_dom :: dom where
  \<open>placeholder_dom sel =
    (if sel = (js ''[class*="answer-container"] [class*="prose"]'') then [placeholder_element]
     else if sel = (js ''[class*="prose"]'') then [placeholder_element, older_answer_element]
     else [])\<close>

text \<open>
  A page whose only answer text is four CJK characters, U+554F U+984C U+554F U+984C:
  four code units, twelve bytes in UTF-8.
\<close>

definition cjk_element :: element where
  "cjk_element =
    \<lparr>node_id = 3, tagName = js ''DIV'', isContentEditable = False,
     innerText = Some [0x554F, 0x984C, 0x554F, 0x984C]\<rparr>"

definition cjk_dom :: dom where
  \<open>cjk_dom sel = (if sel = js ''[class*="prose"]'' then [cjk_element] else [])\<close>

text \<open>A page with nothing on it.\<close>

definition empty_dom :: dom where
  "empty_dom sel = []"

text \<open>An added node that is itself an answer element.\<close>

definition answer_node :: node where
  \<open>answer_node =
    \<lparr>node_matches = (\<lambda>sel. sel = (js ''[class*="answer"]'')), node_querySelector = (\<lambda>sel. None)\<rparr>\<close>

section \<open>Auxiliary facts\<close>

subsection \<open>Strings written in ASCII\<close>

lemma unat_of_char: "unat (of_char c :: code_unit) = of_char c"
proof -
  have "(of_char c :: code_unit) = of_nat (of_char c)"
    by (simp add: of_nat_of_char)
  moreover have "(of_char c :: nat) < 2 ^ 16"
  proof -
    have "(of_char c :: nat) mod 256 < 256" by simp
    then have "(of_char c :: nat) < 256" by (simp only: of_char_mod_256)
    also have "(256 :: nat) < 2 ^ 16" by simp
    finally show ?thesis .
  qed
  ultimately show ?thesis
    by (simp add: unat_of_nat del: of_nat_of_char)
qed

lemma of_char_word_inject [simp]: "(of_char c :: code_unit) = of_char d \<longleftrightarrow> c = d"
  by (metis unat_of_char of_char_eq_iff)

lemma js_Nil [simp]: "js [] = []"
  by (simp add: js_def)

lemma js_eq_Nil [simp]: "js s = [] \<longleftrightarrow> s = []"
  by (simp add: js_def)

lemma Nil_eq_js [simp]: "[] = js s \<longleftrightarrow> s = []"
  by (simp add: js_def)

lemma length_js [simp]: "length (js s) = length s"
  by (simp add: js_def)

lemma js_inject [simp]: "js a = js b \<longleftrightarrow> a = b"
  unfolding js_def by (rule inj_map_eq_map) (simp add: inj_def)

subsection \<open>The sampling loop and its locals\<close>

lemma or_empty_simps [simp]: "or_empty None = []" "or_empty (Some r) = r"
  by (simp_all add: or_empty_def)

lemma safeSendMessage_cases:
  "safeSendMessage valid throws m = Normal (if valid \<and> throws = None then [m] else [])"
  by (simp add: safeSendMessage_def runtime_sendMessage_def split: option.splits)

lemma loop_body_eq:
  "loop_body lc s b =
    (let c = or_empty (response b) in
     if c = previousContent s \<and> c \<noteq> [] then
       (if stableThreshold \<le> Suc (stableCount s) then
          Finished Completed
            (if c \<noteq> lc \<and> ctxValidAtSend b \<and> sendThrows b = None then [RESPONSE_CAPTURED AI_TYPE c] else [])
            c
        else Continue (next_locals s c))
     else Continue (next_locals s c))"
  by (auto simp: loop_body_def Let_def safeSendMessage_cases next_locals_def)

lemma loop_head_next_locals [simp]: "loop_head (next_locals s c) h = loop_head s h"
  by (simp add: loop_head_def next_locals_def)

lemma loop_head_feed [simp]: "loop_head (feed s cs) h = loop_head s h"
  by (induction cs arbitrary: s) simp_all

lemma sampling_loop_extend:
  "sampling_loop lc s ts = Some r \<Longrightarrow> sampling_loop lc s (ts @ us) = Some r"
proof (induction ts arbitrary: s r)
  case Nil
  then show ?case by simp
next
  case (Cons t ts)
  then show ?case
    by (auto split: option.splits body_result.splits)
qed

lemma quiet_prefix:
  "\<forall>t\<in>set pre. loop_head s (head t) = None \<Longrightarrow> calm s (map content pre) \<Longrightarrow>
   sampling_loop lc s (pre @ rest) =
     map_option (\<lambda>r. r\<lparr>samples := samples r + length pre\<rparr>)
       (sampling_loop lc (feed s (map content pre)) rest)"
proof (induction pre arbitrary: s)
  case Nil
  then show ?case by (simp add: option.map_ident)
next
  case (Cons t pre)
  have body: "loop_body lc s (body t) = Continue (next_locals s (content t))"
    using Cons.prems(2) by (auto simp: loop_body_eq content_def Let_def)
  have "sampling_loop lc (next_locals s (content t)) (pre @ rest) =
     map_option (\<lambda>r. r\<lparr>samples := samples r + length pre\<rparr>)
       (sampling_loop lc (feed (next_locals s (content t)) (map content pre)) rest)"
    using Cons.prems by (intro Cons.IH) simp_all
  then show ?case
    using Cons.prems(1) body
    by (simp add: option.map_comp comp_def sampled_def)
qed


lemma feed_append: "feed s (xs @ ys) = feed (feed s xs) ys"
  by (induction xs arbitrary: s) simp_all

lemma calm_append: "calm s (xs @ ys) = (calm s xs \<and> calm (feed s xs) ys)"
  by (induction xs arbitrary: s) auto

lemma feed_replicate:
  "previousContent s = v \<Longrightarrow> v \<noteq> [] \<Longrightarrow>
   feed s (replicate m v) = s\<lparr>stableCount := stableCount s + m\<rparr>"
  by (induction m arbitrary: s) (simp_all add: next_locals_def)

lemma calm_replicate:
  "previousContent s = v \<Longrightarrow> v \<noteq> [] \<Longrightarrow> stableCount s + m < stableThreshold \<Longrightarrow>
   calm s (replicate m v)"
  by (induction m arbitrary: s) (simp_all add: next_locals_def)

lemma changing_samples:
  "distinct_adj cs \<Longrightarrow> cs \<noteq> [] \<Longrightarrow> hd cs \<noteq> previousContent s \<or> hd cs = [] \<Longrightarrow>
   calm s cs \<and> feed s cs = s\<lparr>stableCount := 0, previousContent := last cs\<rparr>"
proof (induction cs arbitrary: s)
  case Nil
  then show ?case by simp
next
  case (Cons c cs)
  have nl: "next_locals s c = s\<lparr>stableCount := 0, previousContent := c\<rparr>"
    using Cons.prems(3) by (auto simp: next_locals_def)
  show ?case
  proof (cases cs)
    case Nil
    with nl Cons.prems(3) show ?thesis by auto
  next
    case (Cons d ds)
    with Cons.prems(1) have "distinct_adj cs" "hd cs \<noteq> c" by auto
    with Cons.IH [of "next_locals s c"] Cons nl
    have "calm (next_locals s c) cs \<and>
          feed (next_locals s c) cs = (next_locals s c)\<lparr>stableCount := 0, previousContent := last cs\<rparr>"
      by simp
    with nl Cons Cons.prems(3) show ?thesis by auto
  qed
qed

lemma has_stable_run_suffix: "has_stable_run k ys \<Longrightarrow> has_stable_run k (xs @ ys)"
  by (induction xs) simp_all

lemma has_stable_run_replicate:
  "v \<noteq> [] \<Longrightarrow> k \<le> Suc n \<Longrightarrow> has_stable_run k (replicate (Suc n) v @ cs)"
proof -
  assume v: "v \<noteq> []" and k: "k \<le> Suc n"
  have "take k (replicate (Suc n) v @ cs) = replicate k v"
    using k by (simp add: min_def del: replicate_Suc)
  then show ?thesis
    using v by (simp del: take_Suc_Cons)
qed

lemma calm_of_no_run:
  "\<not> has_stable_run stableThreshold (replicate (Suc (stableCount s)) (previousContent s) @ cs) \<Longrightarrow>
   calm s cs"
proof (induction cs arbitrary: s)
  case Nil
  then show ?case by simp
next
  case (Cons c cs)
  show ?case
  proof (cases "c = previousContent s \<and> c \<noteq> []")
    case True
    then have p: "previousContent s = c" and c: "c \<noteq> []" by auto
    have nl: "stableCount (next_locals s c) = Suc (stableCount s)"
             "previousContent (next_locals s c) = c"
      using p c by (simp_all add: next_locals_def)
    have no: "\<not> has_stable_run stableThreshold (replicate (Suc (stableCount s)) c @ c # cs)"
      using Cons.prems unfolding p .
    have eq: "replicate (Suc (stableCount s)) c @ c # cs =
              replicate (Suc (Suc (stableCount s))) c @ cs"
      by (simp add: replicate_append_same)
    have small: "Suc (stableCount s) < stableThreshold"
    proof (rule ccontr)
      assume "\<not> Suc (stableCount s) < stableThreshold"
      then have "stableThreshold \<le> Suc (stableCount s)" by simp
      with c have "has_stable_run stableThreshold (replicate (Suc (stableCount s)) c @ c # cs)"
        by (rule has_stable_run_replicate)
      with no show False ..
    qed
    have no': "\<not> has_stable_run stableThreshold (replicate (Suc (Suc (stableCount s))) c @ cs)"
      using no unfolding eq .
    have "calm (next_locals s c) cs"
    proof (rule Cons.IH)
      show "\<not> has_stable_run stableThreshold
              (replicate (Suc (stableCount (next_locals s c))) (previousContent (next_locals s c)) @ cs)"
        unfolding nl by (rule no')
    qed
    with small show ?thesis by simp
  next
    case False
    have "\<not> has_stable_run stableThreshold (c # cs)"
      using Cons.prems has_stable_run_suffix by blast
    moreover have "next_locals s c = s\<lparr>stableCount := 0, previousContent := c\<rparr>"
      using False by (auto simp: next_locals_def)
    ultimately have "calm (next_locals s c) cs"
      using Cons.IH [of "next_locals s c"] by simp
    with False show ?thesis by auto
  qed
qed

lemma distinct_adj_no_run: "distinct_adj cs \<Longrightarrow> 2 \<le> k \<Longrightarrow> \<not> has_stable_run k cs"
proof (induction cs)
  case Nil
  then show ?case by simp
next
  case (Cons c cs)
  obtain j where k: "k = Suc (Suc j)"
    using Cons.prems(2) by (metis One_nat_def Suc_1 Suc_le_D Suc_le_mono)
  have "take k (c # cs) \<noteq> replicate k c"
  proof (cases cs)
    case Nil
    then show ?thesis by (simp add: k)
  next
    case (Cons d ds)
    with Cons.prems \<open>distinct_adj (c # cs)\<close> have "c \<noteq> d" by simp
    with Cons show ?thesis by (simp add: k)
  qed
  moreover have "distinct_adj cs"
    using Cons.prems(1) by (rule distinct_adj_ConsD)
  ultimately show ?case
    using Cons.IH Cons.prems(2) by auto
qed

lemma sampling_loop_outcome:
  "sampling_loop lc s ts = Some r \<Longrightarrow>
     (ending r = Completed \<and> 0 < samples r \<and> samples r \<le> length ts \<and>
      content (ts ! (samples r - 1)) \<noteq> [] \<and>
      baseline r = content (ts ! (samples r - 1)) \<and>
      sent r = (if content (ts ! (samples r - 1)) \<noteq> lc
                   \<and> ctxValidAtSend (body (ts ! (samples r - 1)))
                   \<and> sendThrows (body (ts ! (samples r - 1))) = None
                then [RESPONSE_CAPTURED AI_TYPE (content (ts ! (samples r - 1)))] else []))
   \<or> (samples r < length ts \<and> loop_head s (head (ts ! samples r)) = Some (ending r) \<and>
      ending r \<noteq> Completed \<and> sent r = [] \<and> baseline r = lc)"
proof (induction ts arbitrary: s r)
  case Nil
  then show ?case by simp
next
  case (Cons t ts)
  show ?case
  proof (cases "loop_head s (head t)")
    case (Some e)
    with Cons.prems have "r = \<lparr>ending = e, samples = 0, sent = [], baseline = lc\<rparr>" by simp
    moreover have "e \<noteq> Completed"
      using Some by (auto simp: loop_head_def split: if_splits)
    ultimately show ?thesis using Some by simp
  next
    case None
    show ?thesis
    proof (cases "loop_body lc s (body t)")
      case (Finished e out lc')
      with None Cons.prems have r: "r = \<lparr>ending = e, samples = 1, sent = out, baseline = lc'\<rparr>"
        by simp
      from Finished show ?thesis
        unfolding r by (auto simp: loop_body_eq Let_def content_def split: if_splits)
    next
      case (Continue s')
      with None Cons.prems obtain r' where r': "sampling_loop lc s' ts = Some r'"
        and r: "r = sampled r'" by auto
      from Continue have s': "s' = next_locals s (content t)"
        by (auto simp: loop_body_eq Let_def content_def split: if_splits)
      from Cons.IH [OF r'] show ?thesis
      proof
        assume a: "ending r' = Completed \<and> 0 < samples r' \<and> samples r' \<le> length ts \<and>
      content (ts ! (samples r' - 1)) \<noteq> [] \<and>
      baseline r' = content (ts ! (samples r' - 1)) \<and>
      sent r' = (if content (ts ! (samples r' - 1)) \<noteq> lc
                   \<and> ctxValidAtSend (body (ts ! (samples r' - 1)))
                   \<and> sendThrows (body (ts ! (samples r' - 1))) = None
                then [RESPONSE_CAPTURED AI_TYPE (content (ts ! (samples r' - 1)))] else [])"
        then have "(t # ts) ! (samples r - 1) = ts ! (samples r' - 1)"
          by (simp add: r sampled_def nth_Cons')
        with a show ?thesis
          by (simp add: r sampled_def)
      next
        assume "samples r' < length ts \<and> loop_head s' (head (ts ! samples r')) = Some (ending r') \<and>
      ending r' \<noteq> Completed \<and> sent r' = [] \<and> baseline r' = lc"
        then show ?thesis
          by (simp add: r sampled_def s')
      qed
    qed
  qed
qed

lemma first_sample_never_counts:
  "previousContent s = [] \<Longrightarrow> loop_body lc s b = Continue (s\<lparr>stableCount := 0, previousContent := or_empty (response b)\<rparr>)"
  by (auto simp: loop_body_eq Let_def next_locals_def)

lemma completed_needs_samples:
  "sampling_loop lc s ts = Some r \<Longrightarrow> ending r = Completed \<Longrightarrow>
   stableThreshold \<le> stableCount s + samples r"
proof (induction ts arbitrary: s r)
  case Nil
  then show ?case by simp
next
  case (Cons t ts)
  show ?case
  proof (cases "loop_head s (head t)")
    case (Some e)
    with Cons.prems show ?thesis
      by (auto simp: loop_head_def split: if_splits)
  next
    case None
    show ?thesis
    proof (cases "loop_body lc s (body t)")
      case (Finished e out lc')
      with None Cons.prems show ?thesis
        by (auto simp: loop_body_eq Let_def split: if_splits)
    next
      case (Continue s')
      with None Cons.prems obtain r' where r': "sampling_loop lc s' ts = Some r'"
        and r: "r = sampled r'" by auto
      from Continue have "stableCount s' \<le> Suc (stableCount s)"
        by (auto simp: loop_body_eq Let_def next_locals_def split: if_splits)
      moreover have "stableThreshold \<le> stableCount s' + samples r'"
        using Cons.IH [OF r'] Cons.prems(2) r by (simp add: sampled_def)
      ultimately show ?thesis by (simp add: r sampled_def)
    qed
  qed
qed

lemma completed_needs_more_samples:
  assumes "capture lc t0 ts = Some r" "ending r = Completed"
  shows "stableThreshold < samples r"
proof (cases ts)
  case Nil
  with assms show ?thesis by (simp add: capture_def)
next
  case (Cons t us)
  let ?s = "new_session t0"
  have body: "loop_body lc ?s (body t) =
      Continue (?s\<lparr>stableCount := 0, previousContent := or_empty (response (body t))\<rparr>)"
    by (rule first_sample_never_counts) (simp add: new_session_def)
  show ?thesis
  proof (cases "loop_head ?s (head t)")
    case (Some e)
    with assms Cons show ?thesis
      by (auto simp: capture_def loop_head_def split: if_splits)
  next
    case None
    with assms Cons body obtain r' where
      r': "sampling_loop lc (?s\<lparr>stableCount := 0, previousContent := or_empty (response (body t))\<rparr>) us = Some r'"
      and r: "r = sampled r'"
      by (auto simp: capture_def)
    from completed_needs_samples [OF r'] assms(2) r
    show ?thesis by (simp add: sampled_def)
  qed
qed

subsection \<open>Simulated streams, and a session driven through the entry points\<close>

lemma content_simulated_tick [simp]: "content (simulated_tick t0 k c) = c"
  by (simp add: content_def simulated_tick_def)

lemma content_simulated_from [simp]: "map content (simulated_from t0 k cs) = cs"
  by (induction cs arbitrary: k) simp_all

lemma length_simulated_from [simp]: "length (simulated_from t0 k cs) = length cs"
  by (induction cs arbitrary: k) simp_all

lemma simulated_from_append:
  "simulated_from t0 k (xs @ ys) = simulated_from t0 k xs @ simulated_from t0 (k + length xs) ys"
  by (induction xs arbitrary: k) simp_all

lemma simulated_from_nth:
  "i < length cs \<Longrightarrow> simulated_from t0 k cs ! i = simulated_tick t0 (k + i) (cs ! i)"
proof (induction cs arbitrary: k i)
  case Nil
  then show ?case by simp
next
  case (Cons c cs)
  then show ?case by (cases i) simp_all
qed

lemma take_simulated_from: "take n (simulated_from t0 k cs) = simulated_from t0 k (take n cs)"
proof (induction cs arbitrary: k n)
  case Nil
  then show ?case by simp
next
  case (Cons c cs)
  then show ?case by (cases n) simp_all
qed

lemma loop_head_simulated_tick:
  "startTime s = t0 \<Longrightarrow>
   loop_head s (head (simulated_tick t0 k c)) = (if k < ceiling_ticks then None else Some TimedOut)"
  by (auto simp: loop_head_def simulated_tick_def ceiling_ticks_def maxWait_def checkInterval_def)

lemma heads_simulated_from:
  "startTime s = t0 \<Longrightarrow> k + length cs \<le> ceiling_ticks \<Longrightarrow>
   \<forall>t\<in>set (simulated_from t0 k cs). loop_head s (head t) = None"
proof (induction cs arbitrary: k)
  case Nil
  then show ?case by simp
next
  case (Cons c cs)
  from Cons.prems have "\<forall>t\<in>set (simulated_from t0 (Suc k) cs). loop_head s (head t) = None"
    by (intro Cons.IH) simp_all
  with Cons.prems show ?case by (simp add: loop_head_simulated_tick)
qed

lemma drive_idle: "sessions sys = [] \<Longrightarrow> drive sys h ts = sys"
proof (induction sys h ts rule: drive.induct)
  case (1 sys h)
  then show ?case by simp
next
  case (2 sys h t)
  then show ?case by (simp add: session_wake_def)
next
  case (3 sys h t u ts)
  then show ?case by (simp add: session_wake_def)
qed

lemma drive_link:
  "sessions sys = [s] \<Longrightarrow> loop_head s (head t) = None \<Longrightarrow>
   sampling_loop (lastCapturedContent sys) s (t # ts) = Some r \<Longrightarrow>
   drive sys h (t # ts) =
     sys\<lparr>lastCapturedContent := baseline r, outbox := outbox sys @ sent r,
         sessions := [], isCapturing := False\<rparr>"
proof (induction ts arbitrary: sys s t r)
  case Nil
  then show ?case
    by (auto simp: session_wake_def split: body_result.splits)
next
  case (Cons u us)
  show ?case
  proof (cases "loop_body (lastCapturedContent sys) s (body t)")
    case (Finished e out lc')
    with Cons.prems have r: "r = \<lparr>ending = e, samples = 1, sent = out, baseline = lc'\<rparr>"
      by simp
    have "session_wake sys 0 (body t) (head u) =
        sys\<lparr>lastCapturedContent := lc', outbox := outbox sys @ out, sessions := [], isCapturing := False\<rparr>"
      using Cons.prems(1) Finished by (simp add: session_wake_def)
    then show ?thesis
      by (simp add: drive_idle r)
  next
    case (Continue s')
    with Cons.prems obtain r' where r': "sampling_loop (lastCapturedContent sys) s' (u # us) = Some r'"
      and r: "r = sampled r'" by auto
    show ?thesis
    proof (cases "loop_head s' (head u)")
      case (Some e)
      with r' have "r' = \<lparr>ending = e, samples = 0, sent = [], baseline = lastCapturedContent sys\<rparr>"
        by simp
      moreover have "session_wake sys 0 (body t) (head u) = sys\<lparr>sessions := [], isCapturing := False\<rparr>"
        using Cons.prems(1) Continue Some by (simp add: session_wake_def)
      ultimately show ?thesis
        by (simp add: drive_idle r sampled_def)
    next
      case None
      let ?sys' = "sys\<lparr>sessions := [s']\<rparr>"
      have w: "session_wake sys 0 (body t) (head u) = ?sys'"
        using Cons.prems(1) Continue None by (simp add: session_wake_def)
      have "drive ?sys' h (u # us) =
        ?sys'\<lparr>lastCapturedContent := baseline r', outbox := outbox ?sys' @ sent r',
              sessions := [], isCapturing := False\<rparr>"
        using None r' by (intro Cons.IH [where s = s']) simp_all
      then show ?thesis
        by (simp add: w r sampled_def)
    qed
  qed
qed

lemma session_run_link:
  assumes "\<not> isCapturing sys" "sessions sys = []"
    and "capture (lastCapturedContent sys) t0 ts = Some r"
  shows "session_run sys t0 h ts =
     sys\<lparr>lastCapturedContent := baseline r, outbox := outbox sys @ sent r\<rparr>"
proof (cases ts)
  case Nil
  with assms show ?thesis by (simp add: capture_def)
next
  case (Cons t us)
  show ?thesis
  proof (cases "loop_head (new_session t0) (head t)")
    case (Some e)
    with assms(3) Cons
    have r: "r = \<lparr>ending = e, samples = 0, sent = [], baseline = lastCapturedContent sys\<rparr>"
      by (simp add: capture_def)
    have "session_run sys t0 h ts = sys\<lparr>isCapturing := False\<rparr>"
      using assms(1,2) Some Cons
      by (simp add: session_run_def waitForStreamingComplete_def drive_idle)
    with assms(1) show ?thesis
      unfolding r by (cases sys) simp
  next
    case None
    let ?sys' = "sys\<lparr>isCapturing := True, sessions := [new_session t0]\<rparr>"
    have "drive ?sys' h (t # us) =
       ?sys'\<lparr>lastCapturedContent := baseline r, outbox := outbox ?sys' @ sent r,
             sessions := [], isCapturing := False\<rparr>"
      using None assms(3) Cons by (intro drive_link [where s = "new_session t0"]) (simp_all add: capture_def)
    with assms None Cons show ?thesis
      by (simp add: session_run_def waitForStreamingComplete_def)
  qed
qed

section \<open>The claims\<close>

subsection \<open>Injection\<close>

lemma inputEl_loop_none:
  "\<forall>sel\<in>set sels. querySelector d sel = None \<Longrightarrow> inputEl_loop d sels = None"
  by (induction sels) simp_all

text \<open>
  C5. On every page on which no input selector matches, \<open>injectMessage\<close> throws
  "Could not find input field" before it has written anything, and the listener answers
  the INJECT_MESSAGE request with \<open>{success: false, error: "Could not find input field"}\<close>;
  nothing else of the script's state changes: no write to the page is made then, and no
  suspended call is left behind that could make one later.
\<close>

theorem inject_fails_without_input:
  assumes "\<forall>sel\<in>set inputSelectors. querySelector d sel = None"
  shows "injectMessage_begin d text = (Inl (js ''Could not find input field''), [])
       \<and> onMessage sys d (INJECT_MESSAGE text) =
           sys\<lparr>replies := replies sys @ [InjectReply False (Some (js ''Could not find input field''))]\<rparr>
       \<and> writes (onMessage sys d (INJECT_MESSAGE text)) = writes sys
       \<and> injections (onMessage sys d (INJECT_MESSAGE text)) = injections sys"
proof -
  have "inputEl_loop d inputSelectors = None"
    using assms by (rule inputEl_loop_none)
  then have b: "injectMessage_begin d text = (Inl (js ''Could not find input field''), [])"
    by (simp add: injectMessage_begin_def)
  then show ?thesis
    by (simp add: onMessage_def)
qed

theorem inject_fails_without_input_witness:
  "injectMessage_begin empty_dom (js ''hello'') = (Inl (js ''Could not find input field''), [])
   \<and> replies (onMessage initial empty_dom (INJECT_MESSAGE (js ''hello''))) =
       [InjectReply False (Some (js ''Could not find input field''))]
   \<and> writes (onMessage initial empty_dom (INJECT_MESSAGE (js ''hello''))) = []
   \<and> injections (onMessage initial empty_dom (INJECT_MESSAGE (js ''hello''))) = []"
proof -
  have h: "\<forall>sel\<in>set inputSelectors. querySelector empty_dom sel = None"
    by (simp add: querySelector_def empty_dom_def)
  from inject_fails_without_input [OF h, of "js ''hello''" initial]
  show ?thesis by (simp add: initial_def)
qed

subsection \<open>Selector priority\<close>

text \<open>
  Length and trimming are those of the script: a text of four CJK characters has length 4
  and is not taken for an answer, and the ideographic space, the byte order mark and the
  em space are trimmed like the ASCII blank.
\<close>

lemma short_cjk_text_is_no_answer: "getLatestResponse cjk_dom = None"
  by (simp add: getLatestResponse_def selectors_def cjk_dom_def cjk_element_def
      querySelectorAll_def trim_def is_space_def js_def)

lemma trim_strips_unicode_space:
  "trim (0x3000 # js '' abc'' @ [0xFEFF, 0x2003]) = js ''abc''"
  by (simp add: trim_def js_def is_space_def)

lemma trim_keeps_cjk: "trim [0x554F, 0x00A0, 0x984C, 0x00A0] = [0x554F, 0x00A0, 0x984C]"
  by (simp add: trim_def is_space_def)

lemma inputEl_loop_find:
  "inputEl_loop d sels =
    (case find (\<lambda>sel. querySelector d sel \<noteq> None) sels of
       None \<Rightarrow> None | Some sel \<Rightarrow> querySelector d sel)"
  by (induction sels) (auto split: option.splits)

lemma getLatestResponse_loop_step:
  "getLatestResponse_loop d (sel # sels) =
    (case acceptable_text d sel of Some t \<Rightarrow> Some t | None \<Rightarrow> getLatestResponse_loop d sels)"
proof (cases "d sel")
  case Nil
  then show ?thesis
    by (simp add: acceptable_text_def last_text_def querySelectorAll_def)
next
  case (Cons e es)
  then have "(d sel) ! (length (d sel) - 1) = last (d sel)"
    by (simp add: last_conv_nth)
  with Cons show ?thesis
    by (auto simp: acceptable_text_def last_text_def querySelectorAll_def Let_def
             split: option.splits)
qed

lemma getLatestResponse_loop_find:
  "getLatestResponse_loop d sels =
    (case find (\<lambda>sel. acceptable_text d sel \<noteq> None) sels of
       None \<Rightarrow> None | Some sel \<Rightarrow> acceptable_text d sel)"
proof (induction sels)
  case Nil
  then show ?case by simp
next
  case (Cons sel sels)
  show ?case
    unfolding getLatestResponse_loop_step
    using Cons.IH by (auto split: option.splits)
qed

text \<open>
  C6, as amended. For every list of selectors and every page: the input is the first
  match of the first selector, in priority order, that matches anything. The sample is
  taken from the first selector, in priority order, whose last match has a trimmed text
  of more than 10 code units, and it is that text; a selector that matches only elements
  whose last one has a shorter text (or none) is passed over, and the sample is \<open>null\<close>
  exactly when every selector is passed over.
\<close>

theorem selector_priority:
  "inputEl_loop d sels =
     (case find (\<lambda>sel. querySelector d sel \<noteq> None) sels of
        None \<Rightarrow> None | Some sel \<Rightarrow> querySelector d sel)
   \<and> getLatestResponse_loop d sels =
     (case find (\<lambda>sel. acceptable_text d sel \<noteq> None) sels of
        None \<Rightarrow> None | Some sel \<Rightarrow> acceptable_text d sel)
   \<and> getLatestResponse d =
     (case find (\<lambda>sel. acceptable_text d sel \<noteq> None) selectors of
        None \<Rightarrow> None | Some sel \<Rightarrow> acceptable_text d sel)"
  by (simp add: inputEl_loop_find getLatestResponse_loop_find getLatestResponse_def)

text \<open>
  C6 as stated fails: on \<open>placeholder_dom\<close> the first selector matches, its last match
  holds the 9 code units "Searching", and yet the sample is neither that text nor empty:
  it is the text of the last match of the second selector.
\<close>

theorem selector_priority_counterexample:
  \<open>placeholder_dom (selectors ! 0) = [placeholder_element]
   \<and> getLatestResponse placeholder_dom = Some (js ''The answer is forty-two.'')
   \<and> first_match_text placeholder_dom selectors = None
   \<and> getLatestResponse placeholder_dom \<noteq> first_match_text placeholder_dom selectors\<close>
  by (simp add: getLatestResponse_def first_match_text_def selectors_def placeholder_dom_def
      acceptable_text_def last_text_def querySelectorAll_def placeholder_element_def
      older_answer_element_def trim_def is_space_def js_def)

subsection \<open>Snapshot queries\<close>

lemma run_queries:
  "run sys (replicate n (Message GET_LATEST_RESPONSE d)) =
     sys\<lparr>replies := replies sys @ replicate n (ContentReply (getLatestResponse d))\<rparr>"
proof (induction n arbitrary: sys)
  case 0
  then show ?case by (simp add: run_def)
next
  case (Suc n)
  have "run sys (replicate (Suc n) (Message GET_LATEST_RESPONSE d)) =
        run (onMessage sys d GET_LATEST_RESPONSE) (replicate n (Message GET_LATEST_RESPONSE d))"
    by (simp add: run_def)
  also have "\<dots> = (onMessage sys d GET_LATEST_RESPONSE)
      \<lparr>replies := replies (onMessage sys d GET_LATEST_RESPONSE) @ replicate n (ContentReply (getLatestResponse d))\<rparr>"
    by (rule Suc.IH)
  also have "\<dots> = sys\<lparr>replies := replies sys @ replicate (Suc n) (ContentReply (getLatestResponse d))\<rparr>"
    by (simp add: onMessage_def)
  finally show ?case .
qed

text \<open>
  C10. A GET_LATEST_RESPONSE query is answered with \<open>getLatestResponse\<close> of the page as it
  is, whatever the state of the script (in particular with a session active or not), and
  it changes nothing but the list of answers given; so any number of queries on an
  unchanged page, from any state, all get the same answer, and so does a query made after
  any other activity of the script on that page.
\<close>

theorem snapshot_idempotent:
  "onMessage sys d GET_LATEST_RESPONSE =
     sys\<lparr>replies := replies sys @ [ContentReply (getLatestResponse d)]\<rparr>
   \<and> run sys (replicate n (Message GET_LATEST_RESPONSE d)) =
     sys\<lparr>replies := replies sys @ replicate n (ContentReply (getLatestResponse d))\<rparr>
   \<and> last (replies (step (run (step sys (Message GET_LATEST_RESPONSE d)) evs)
                        (Message GET_LATEST_RESPONSE d))) =
     last (replies (step sys (Message GET_LATEST_RESPONSE d)))"
  by (simp add: run_queries) (simp add: onMessage_def)

subsection \<open>Sessions that go on, and sessions that complete\<close>

lemma still_sampling:
  assumes "\<forall>t\<in>set ts. loop_head s (head t) = None" "calm s (map content ts)"
  shows "sampling_loop lc s ts = None"
  using quiet_prefix [OF assms, of lc "[]"] by simp

lemma stabilises:
  assumes heads: "\<forall>u\<in>set pre. loop_head s (head u) = None" "loop_head s (head t) = None"
    and calm: "calm s (map content pre)"
    and prev: "previousContent (feed s (map content pre)) = content t"
    and ne: "content t \<noteq> []"
    and count: "stableThreshold \<le> Suc (stableCount (feed s (map content pre)))"
  shows "sampling_loop lc s (pre @ t # rest) =
     Some \<lparr>ending = Completed, samples = Suc (length pre),
           sent = (if content t \<noteq> lc \<and> ctxValidAtSend (body t) \<and> sendThrows (body t) = None
                   then [RESPONSE_CAPTURED AI_TYPE (content t)] else []),
           baseline = content t\<rparr>"
proof -
  let ?s' = "feed s (map content pre)"
  have "loop_head ?s' (head t) = None"
    using heads(2) by simp
  moreover have "loop_body lc ?s' (body t) =
      Finished Completed
        (if content t \<noteq> lc \<and> ctxValidAtSend (body t) \<and> sendThrows (body t) = None
         then [RESPONSE_CAPTURED AI_TYPE (content t)] else [])
        (content t)"
    using prev ne count by (simp add: loop_body_eq Let_def content_def)
  ultimately have "sampling_loop lc ?s' (t # rest) =
     Some \<lparr>ending = Completed, samples = 1,
           sent = (if content t \<noteq> lc \<and> ctxValidAtSend (body t) \<and> sendThrows (body t) = None
                   then [RESPONSE_CAPTURED AI_TYPE (content t)] else []),
           baseline = content t\<rparr>"
    by simp
  then show ?thesis
    by (simp add: quiet_prefix [OF heads(1) calm])
qed

lemma calm_prefix: "calm s (xs @ ys) \<Longrightarrow> calm s xs"
  by (simp add: calm_append)

lemma calm_take: "calm s xs \<Longrightarrow> calm s (take k xs)"
  by (metis append_take_drop_id calm_prefix)

text \<open>The samples of a stream that changes with every sample until \<open>v\<close> arrives and then repeats it.\<close>

lemma settle_samples:
  assumes "distinct_adj (cs @ [v])" "v \<noteq> []" "previousContent s = []" "m < stableThreshold"
  shows "calm s (cs @ replicate (Suc m) v)"
    and "feed s (cs @ replicate (Suc m) v) = s\<lparr>stableCount := m, previousContent := v\<rparr>"
proof -
  let ?s1 = "s\<lparr>stableCount := 0, previousContent := v\<rparr>"
  have first: "hd (cs @ [v]) \<noteq> previousContent s \<or> hd (cs @ [v]) = []"
    using assms(3) by simp
  have ch: "calm s (cs @ [v]) \<and> feed s (cs @ [v]) = s\<lparr>stableCount := 0, previousContent := last (cs @ [v])\<rparr>"
    using assms(1) first by (intro changing_samples) simp_all
  then have f1: "feed s (cs @ [v]) = ?s1" and c1: "calm s (cs @ [v])" by simp_all
  have c2: "calm ?s1 (replicate m v)"
    using assms(2,4) by (intro calm_replicate) simp_all
  have f2: "feed ?s1 (replicate m v) = ?s1\<lparr>stableCount := stableCount ?s1 + m\<rparr>"
    using assms(2) by (intro feed_replicate) simp_all
  have split: "cs @ replicate (Suc m) v = (cs @ [v]) @ replicate m v"
    by simp
  have "calm s ((cs @ [v]) @ replicate m v) =
        (calm s (cs @ [v]) \<and> calm (feed s (cs @ [v])) (replicate m v))"
    by (rule calm_append)
  with c1 c2 have "calm s ((cs @ [v]) @ replicate m v)"
    by (simp only: f1)
  then show "calm s (cs @ replicate (Suc m) v)"
    by (simp only: split)
  have "feed s ((cs @ [v]) @ replicate m v) = feed (feed s (cs @ [v])) (replicate m v)"
    by (rule feed_append)
  also have "\<dots> = ?s1\<lparr>stableCount := stableCount ?s1 + m\<rparr>"
    by (simp only: f1 f2)
  finally show "feed s (cs @ replicate (Suc m) v) = s\<lparr>stableCount := m, previousContent := v\<rparr>"
    by (simp only: split) simp
qed

lemma settles:
  assumes da: "distinct_adj (cs @ [v])" and v: "v \<noteq> []"
    and len: "length cs + stableThreshold < length ts"
    and con: "map content (take (length cs + stableThreshold + 1) ts) = cs @ replicate (Suc stableThreshold) v"
    and heads: "\<forall>t\<in>set (take (length cs + stableThreshold + 1) ts). loop_head (new_session t0) (head t) = None"
  shows "capture lc t0 ts =
      Some \<lparr>ending = Completed, samples = length cs + stableThreshold + 1,
            sent = (if v \<noteq> lc \<and> ctxValidAtSend (body (ts ! (length cs + stableThreshold)))
                       \<and> sendThrows (body (ts ! (length cs + stableThreshold))) = None
                    then [RESPONSE_CAPTURED AI_TYPE v] else []),
            baseline = v\<rparr>"
    and "k \<le> length cs + stableThreshold \<Longrightarrow> capture lc t0 (take k ts) = None"
proof -
  let ?n = "length cs + stableThreshold"
  let ?s = "new_session t0"
  let ?pre = "take ?n ts"
  let ?t = "ts ! ?n"
  obtain m where m: "stableThreshold = Suc m"
    by (simp add: stableThreshold_def)
  have ts: "ts = ?pre @ ?t # drop (Suc ?n) ts"
    using len by (simp add: id_take_nth_drop [symmetric])
  have take_Suc: "take (?n + 1) ts = ?pre @ [?t]"
    using len by (simp add: take_Suc_conv_app_nth)
  have "map content ?pre @ [content ?t] = (cs @ replicate stableThreshold v) @ [v]"
    using con unfolding take_Suc by (simp add: replicate_append_same)
  then have cpre: "map content ?pre = cs @ replicate stableThreshold v" and ct: "content ?t = v"
    by simp_all
  have cpre': "map content ?pre = cs @ replicate (Suc m) v"
    unfolding cpre by (simp add: m)
  have prev0: "previousContent ?s = []"
    by (simp add: new_session_def)
  have calm: "calm ?s (cs @ replicate (Suc m) v)"
    and feed: "feed ?s (cs @ replicate (Suc m) v) = ?s\<lparr>stableCount := m, previousContent := v\<rparr>"
    using settle_samples [OF da v prev0, of m] m by simp_all
  have hpre: "\<forall>u\<in>set ?pre. loop_head ?s (head u) = None"
    using heads set_take_subset_set_take [of ?n "?n + 1" ts] by auto
  have ht: "loop_head ?s (head ?t) = None"
    using heads unfolding take_Suc by simp
  have "sampling_loop lc ?s (?pre @ ?t # drop (Suc ?n) ts) =
     Some \<lparr>ending = Completed, samples = Suc (length ?pre),
           sent = (if content ?t \<noteq> lc \<and> ctxValidAtSend (body ?t) \<and> sendThrows (body ?t) = None
                   then [RESPONSE_CAPTURED AI_TYPE (content ?t)] else []),
           baseline = content ?t\<rparr>"
  proof (rule stabilises [OF hpre ht])
    show "calm ?s (map content ?pre)"
      using calm unfolding cpre' .
    show "previousContent (feed ?s (map content ?pre)) = content ?t"
      unfolding cpre' feed ct by simp
    show "content ?t \<noteq> []"
      using v ct by simp
    show "stableThreshold \<le> Suc (stableCount (feed ?s (map content ?pre)))"
      unfolding cpre' feed by (simp add: m)
  qed
  moreover have "length ?pre = ?n"
    using len by simp
  ultimately show "capture lc t0 ts =
      Some \<lparr>ending = Completed, samples = length cs + stableThreshold + 1,
            sent = (if v \<noteq> lc \<and> ctxValidAtSend (body (ts ! (length cs + stableThreshold)))
                       \<and> sendThrows (body (ts ! (length cs + stableThreshold))) = None
                    then [RESPONSE_CAPTURED AI_TYPE v] else []),
            baseline = v\<rparr>"
    unfolding capture_def ct using ts by simp
  show "capture lc t0 (take k ts) = None" if k: "k \<le> ?n"
  proof -
    have "take k ts = take k ?pre"
      using k by (simp add: min_def)
    moreover have "\<forall>u\<in>set (take k ?pre). loop_head ?s (head u) = None"
      using hpre by (meson in_set_takeD)
    moreover have "calm ?s (take k (map content ?pre))"
      unfolding cpre' using calm by (rule calm_take)
    then have "calm ?s (map content (take k ?pre))"
      by (simp only: take_map)
    ultimately show ?thesis
      unfolding capture_def by (simp add: still_sampling)
  qed
qed

subsection \<open>Running into the ceiling\<close>

lemma ceiling_ticks_eq: "ceiling_ticks = 1200"
  by (simp add: ceiling_ticks_def maxWait_def checkInterval_def)

lemma simulated_timeout:
  assumes no: "\<not> has_stable_run stableThreshold (take ceiling_ticks cs)"
    and len: "ceiling_ticks < length cs"
  shows "capture lc t0 (simulated t0 cs) =
     Some \<lparr>ending = TimedOut, samples = ceiling_ticks, sent = [], baseline = lc\<rparr>"
proof -
  let ?N = ceiling_ticks
  let ?s = "new_session t0"
  let ?pre = "simulated_from t0 0 (take ?N cs)"
  let ?rest = "simulated_from t0 (Suc ?N) (drop (Suc ?N) cs)"
  have "cs = take ?N cs @ cs ! ?N # drop (Suc ?N) cs"
    using len by (simp add: id_take_nth_drop [symmetric])
  then have "simulated_from t0 0 cs =
      simulated_from t0 0 (take ?N cs @ cs ! ?N # drop (Suc ?N) cs)"
    by simp
  also have "\<dots> = ?pre @ simulated_tick t0 ?N (cs ! ?N) # ?rest"
    using len by (simp add: simulated_from_append min_def)
  finally have split: "simulated t0 cs = ?pre @ simulated_tick t0 ?N (cs ! ?N) # ?rest"
    by (simp add: simulated_def)
  have heads: "\<forall>t\<in>set ?pre. loop_head ?s (head t) = None"
    using len by (intro heads_simulated_from) (simp_all add: new_session_def)
  have "\<not> has_stable_run stableThreshold
          (replicate (Suc (stableCount ?s)) (previousContent ?s) @ take ?N cs)"
    using no by (simp add: new_session_def)
  then have calm: "calm ?s (map content ?pre)"
    by (simp add: calm_of_no_run)
  have "loop_head ?s (head (simulated_tick t0 ?N (cs ! ?N))) = Some TimedOut"
    by (simp add: loop_head_simulated_tick new_session_def)
  then have "sampling_loop lc (feed ?s (map content ?pre)) (simulated_tick t0 ?N (cs ! ?N) # ?rest) =
      Some \<lparr>ending = TimedOut, samples = 0, sent = [], baseline = lc\<rparr>"
    by simp
  then show ?thesis
    unfolding capture_def split using len
    by (simp add: quiet_prefix [OF heads calm])
qed

lemma length_growing [simp]: "length (growing n) = n"
  by (simp add: growing_def)

lemma take_growing: "k \<le> n \<Longrightarrow> take k (growing n) = growing k"
  by (simp add: growing_def take_map take_upt)

lemma distinct_adj_growing: "distinct_adj (growing n)"
proof -
  have "inj_on (\<lambda>k. replicate (Suc k) 0x41) (set [0..<n])"
    by (rule inj_onI) (metis length_replicate nat.inject)
  moreover have "distinct_adj [0..<n]"
    by (simp add: distinct_adj_conv_nth)
  ultimately show ?thesis
    unfolding growing_def by (rule distinct_adj_mapI [rotated])
qed

lemma growing_no_run: "\<not> has_stable_run stableThreshold (growing n)"
  by (rule distinct_adj_no_run [OF distinct_adj_growing]) (simp add: stableThreshold_def)

section \<open>The claims: the sampling loop\<close>

text \<open>
  C1, as amended. Take a stream of samples that changes with every sample until the
  value \<open>v\<close>, not empty, arrives (as sample number \<open>length cs\<close>, counting from 0) and that
  then holds \<open>v\<close>. Provided the head of the loop lets the session go on at each of these
  iterations (the context is valid, and the ceiling of \<open>maxWait\<close> is not reached before
  the completing iteration), the session completes exactly \<open>stableThreshold\<close> iterations
  after that last change, and on no shorter stream does it end. It sets the baseline to
  \<open>v\<close>; it emits RESPONSE_CAPTURED with \<open>v\<close> when \<open>v\<close> differs from the baseline it
  started with (and the guarded send goes through), and emits nothing when \<open>v\<close> is that
  baseline.
\<close>

theorem stability_law:
  assumes "distinct_adj (cs @ [v])" and "v \<noteq> []"
    and "length cs + stableThreshold < length ts"
    and "map content (take (length cs + stableThreshold + 1) ts) = cs @ replicate (Suc stableThreshold) v"
    and "\<forall>t\<in>set (take (length cs + stableThreshold + 1) ts). loop_head (new_session t0) (head t) = None"
  shows "capture lc t0 ts =
      Some \<lparr>ending = Completed, samples = length cs + stableThreshold + 1,
            sent = (if v \<noteq> lc \<and> ctxValidAtSend (body (ts ! (length cs + stableThreshold)))
                       \<and> sendThrows (body (ts ! (length cs + stableThreshold))) = None
                    then [RESPONSE_CAPTURED AI_TYPE v] else []),
            baseline = v\<rparr>
    \<and> (\<forall>k. k \<le> length cs + stableThreshold \<longrightarrow> capture lc t0 (take k ts) = None)"
  using settles [OF assms] by blast

text \<open>
  The scenario of the specification: threshold 4, first run of the script, samples
  "", "A", "AB", "ABC", "ABC", "ABC", "ABC", "ABC". The session completes on sample
  number 7 (its eighth), emitting "ABC"; on the first seven samples it is still sampling.
\<close>

theorem stability_law_witness:
  "capture [] 0 (simulated 0 [[], js ''A'', js ''AB'', js ''ABC'', js ''ABC'', js ''ABC'', js ''ABC'', js ''ABC'']) =
     Some \<lparr>ending = Completed, samples = 8, sent = [RESPONSE_CAPTURED (js ''perplexity'') (js ''ABC'')],
           baseline = js ''ABC''\<rparr>
   \<and> capture [] 0 (take 7 (simulated 0 [[], js ''A'', js ''AB'', js ''ABC'', js ''ABC'', js ''ABC'', js ''ABC'', js ''ABC''])) = None"
proof -
  let ?ts = "simulated 0 [[], js ''A'', js ''AB'', js ''ABC'', js ''ABC'', js ''ABC'', js ''ABC'', js ''ABC'']"
  have 1: "distinct_adj ([[], js ''A'', js ''AB''] @ [js ''ABC''])" by simp
  have 2: "js ''ABC'' \<noteq> []" by simp
  have 3: "length [[], js ''A'', js ''AB''] + stableThreshold < length ?ts"
    by (simp add: simulated_def stableThreshold_def)
  have 4: "map content (take (length [[], js ''A'', js ''AB''] + stableThreshold + 1) ?ts) =
        [[], js ''A'', js ''AB''] @ replicate (Suc stableThreshold) (js ''ABC'')"
    by (simp add: simulated_def stableThreshold_def numeral_eq_Suc)
  have 5: "\<forall>t\<in>set (take (length [[], js ''A'', js ''AB''] + stableThreshold + 1) ?ts).
        loop_head (new_session 0) (head t) = None"
    by (simp add: simulated_def stableThreshold_def loop_head_simulated_tick new_session_def
        ceiling_ticks_eq)
  note law = stability_law [OF 1 2 3 4 5, of "[]"]
  from law have "capture [] 0 (take 7 ?ts) = None"
    by (simp add: stableThreshold_def)
  moreover from law have "capture [] 0 ?ts =
     Some \<lparr>ending = Completed, samples = 8, sent = [RESPONSE_CAPTURED (js ''perplexity'') (js ''ABC'')],
           baseline = js ''ABC''\<rparr>"
    by (simp add: stableThreshold_def simulated_def simulated_tick_def AI_TYPE_def)
  ultimately show ?thesis by simp
qed

text \<open>
  C1 as stated fails in two ways. An answer that keeps changing for 1200 samples, ten
  minutes at the loop's pace, and then holds: the loop's head stops the session at the
  ceiling, before the fourth repetition, and nothing is emitted. And the scenario's own
  stream when "ABC" is already the baseline: the session completes on sample number 7
  and emits nothing.
\<close>

theorem stability_law_counterexample:
  "capture [] 0 (simulated 0 (growing 1200 @ replicate 5 (replicate 1200 0x41))) =
     Some \<lparr>ending = TimedOut, samples = 1200, sent = [], baseline = []\<rparr>
   \<and> capture (js ''ABC'') 0 (simulated 0 [[], js ''A'', js ''AB'', js ''ABC'', js ''ABC'', js ''ABC'', js ''ABC'', js ''ABC'']) =
     Some \<lparr>ending = Completed, samples = 8, sent = [], baseline = js ''ABC''\<rparr>"
proof -
  let ?cs = "growing 1200 @ replicate 5 (replicate 1200 0x41)"
  have "take ceiling_ticks ?cs = growing 1200"
    by (simp add: ceiling_ticks_eq)
  then have "\<not> has_stable_run stableThreshold (take ceiling_ticks ?cs)"
    by (simp only: growing_no_run not_False_eq_True)
  moreover have "ceiling_ticks < length ?cs"
    by (simp add: ceiling_ticks_eq)
  ultimately have "capture [] 0 (simulated 0 ?cs) =
     Some \<lparr>ending = TimedOut, samples = ceiling_ticks, sent = [], baseline = []\<rparr>"
    by (rule simulated_timeout)
  moreover have "capture (js ''ABC'') 0 (simulated 0 [[], js ''A'', js ''AB'', js ''ABC'', js ''ABC'', js ''ABC'', js ''ABC'', js ''ABC'']) =
     Some \<lparr>ending = Completed, samples = 8, sent = [], baseline = js ''ABC''\<rparr>"
    by (simp add: capture_def simulated_def simulated_tick_def new_session_def loop_head_def
        loop_body_eq next_locals_def maxWait_def checkInterval_def stableThreshold_def sampled_def Let_def)
  ultimately show ?thesis
    by (simp add: ceiling_ticks_eq)
qed

lemma simulated_passes:
  "length cs \<le> ceiling_ticks \<Longrightarrow>
   \<forall>t\<in>set (simulated t0 cs). loop_head (new_session t0) (head t) = None"
  unfolding simulated_def by (rule heads_simulated_from) (simp_all add: new_session_def)

text \<open>
  C8. A new session starts with \<open>previousContent\<close> empty, so its first sample, whatever it
  is, leaves \<open>stableCount\<close> at 0. Hence on every simulated stream that holds one value,
  not empty, from the first sample on, the session completes on its sample number
  \<open>stableThreshold + 1\<close> (counting from 1), and after \<open>stableThreshold\<close> samples it is
  still sampling; and whatever the stream, the clock and the context do, no session
  completes having taken only \<open>stableThreshold\<close> samples or fewer.
\<close>

theorem first_tick_edge_case:
  assumes "v \<noteq> []"
  shows "loop_body lc (new_session t0) b =
      Continue ((new_session t0)\<lparr>stableCount := 0, previousContent := or_empty (response b)\<rparr>)
    \<and> capture lc t0 (simulated t0 (replicate (Suc stableThreshold) v @ rest)) =
      Some \<lparr>ending = Completed, samples = stableThreshold + 1,
            sent = (if v \<noteq> lc then [RESPONSE_CAPTURED AI_TYPE v] else []), baseline = v\<rparr>
    \<and> capture lc t0 (simulated t0 (replicate stableThreshold v)) = None
    \<and> (capture lc t0 ts = Some r \<and> ending r = Completed \<longrightarrow> stableThreshold < samples r)"
proof -
  let ?cs = "replicate (Suc stableThreshold) v @ rest"
  let ?ts = "simulated t0 ?cs"
  have first: "loop_body lc (new_session t0) b =
      Continue ((new_session t0)\<lparr>stableCount := 0, previousContent := or_empty (response b)\<rparr>)"
    by (rule first_sample_never_counts) (simp add: new_session_def)
  have 1: "distinct_adj ([] @ [v])" by simp
  have 3: "length ([] :: jsstring list) + stableThreshold < length ?ts"
    by (simp add: simulated_def)
  have 4: "map content (take (length ([] :: jsstring list) + stableThreshold + 1) ?ts) =
        [] @ replicate (Suc stableThreshold) v"
    by (simp add: simulated_def take_simulated_from del: replicate_Suc)
  have "\<forall>t\<in>set (simulated t0 (replicate (Suc stableThreshold) v)). loop_head (new_session t0) (head t) = None"
    by (rule simulated_passes) (simp add: stableThreshold_def ceiling_ticks_eq)
  then have 5: "\<forall>t\<in>set (take (length ([] :: jsstring list) + stableThreshold + 1) ?ts).
        loop_head (new_session t0) (head t) = None"
    by (simp add: simulated_def take_simulated_from del: replicate_Suc)
  have nth: "?ts ! stableThreshold = simulated_tick t0 stableThreshold v"
    by (simp add: simulated_def simulated_from_nth nth_append del: replicate_Suc)
  have fin: "capture lc t0 ?ts =
      Some \<lparr>ending = Completed, samples = stableThreshold + 1,
            sent = (if v \<noteq> lc then [RESPONSE_CAPTURED AI_TYPE v] else []), baseline = v\<rparr>"
    using settles(1) [OF 1 assms 3 4 5, of lc] nth
    by (simp add: simulated_tick_def)
  have "capture lc t0 (take stableThreshold ?ts) = None"
    using settles(2) [OF 1 assms 3 4 5, of stableThreshold lc] by simp
  moreover have "take stableThreshold ?ts = simulated t0 (replicate stableThreshold v)"
    by (simp add: simulated_def take_simulated_from del: replicate_Suc)
  ultimately have before: "capture lc t0 (simulated t0 (replicate stableThreshold v)) = None"
    by simp
  have "capture lc t0 ts = Some r \<and> ending r = Completed \<longrightarrow> stableThreshold < samples r"
    using completed_needs_more_samples by blast
  with first fin before show ?thesis by blast
qed

theorem first_tick_edge_case_witness:
  "capture [] 0 (simulated 0 [js ''ABC'', js ''ABC'', js ''ABC'', js ''ABC'', js ''ABC'']) =
     Some \<lparr>ending = Completed, samples = 5, sent = [RESPONSE_CAPTURED (js ''perplexity'') (js ''ABC'')],
           baseline = js ''ABC''\<rparr>
   \<and> capture [] 0 (simulated 0 [js ''ABC'', js ''ABC'', js ''ABC'', js ''ABC'']) = None
   \<and> stableThreshold < 5"
proof -
  let ?r = "\<lparr>ending = Completed, samples = 5, sent = [RESPONSE_CAPTURED (js ''perplexity'') (js ''ABC'')],
           baseline = js ''ABC''\<rparr>"
  have v: "js ''ABC'' \<noteq> []" by simp
  note law = first_tick_edge_case [OF v, where lc = "[]" and ?t0.0 = 0 and rest = "[]"
      and ts = "simulated 0 [js ''ABC'', js ''ABC'', js ''ABC'', js ''ABC'', js ''ABC'']" and r = ?r]
  from law have a: "capture [] 0 (simulated 0 [js ''ABC'', js ''ABC'', js ''ABC'', js ''ABC'', js ''ABC'']) = Some ?r"
    by (simp add: stableThreshold_def AI_TYPE_def numeral_eq_Suc)
  from law have b: "capture [] 0 (simulated 0 [js ''ABC'', js ''ABC'', js ''ABC'', js ''ABC'']) = None"
    by (simp add: stableThreshold_def numeral_eq_Suc)
  from law a have "stableThreshold < samples ?r" by simp
  with a b show ?thesis by simp
qed

lemma calm_not_completed:
  "calm s (map content ts) \<Longrightarrow> sampling_loop lc s ts = Some r \<Longrightarrow> ending r \<noteq> Completed"
proof (induction ts arbitrary: s r)
  case Nil
  then show ?case by simp
next
  case (Cons t ts)
  show ?case
  proof (cases "loop_head s (head t)")
    case (Some e)
    with Cons.prems show ?thesis
      by (auto simp: loop_head_def split: if_splits)
  next
    case None
    have body: "loop_body lc s (body t) = Continue (next_locals s (content t))"
      using Cons.prems(1) by (auto simp: loop_body_eq content_def Let_def)
    with None Cons.prems(2) obtain r' where
      r': "sampling_loop lc (next_locals s (content t)) ts = Some r'" and r: "r = sampled r'"
      by auto
    have "ending r' \<noteq> Completed"
      using Cons.prems(1) r' by (intro Cons.IH [of "next_locals s (content t)"]) simp_all
    then show ?thesis by (simp add: r sampled_def)
  qed
qed

lemma unstable_session_is_silent:
  assumes "\<not> has_stable_run stableThreshold (map content ts)" "capture lc t0 ts = Some r"
  shows "(ending r = TimedOut \<or> ending r = Cancelled) \<and> sent r = [] \<and> baseline r = lc"
proof -
  let ?s = "new_session t0"
  have "\<not> has_stable_run stableThreshold
          (replicate (Suc (stableCount ?s)) (previousContent ?s) @ map content ts)"
    using assms(1) by (simp add: new_session_def)
  then have "calm ?s (map content ts)"
    by (rule calm_of_no_run)
  then have "ending r \<noteq> Completed"
    using assms(2) unfolding capture_def by (rule calm_not_completed)
  moreover have "loop_head ?s h = Some e \<Longrightarrow> e = TimedOut \<or> e = Cancelled" for h e
    by (auto simp: loop_head_def split: if_splits)
  ultimately show ?thesis
    using sampling_loop_outcome [OF assms(2) [unfolded capture_def]] by auto
qed

text \<open>
  C7. On every simulated stream (a sample every \<open>checkInterval\<close> = 500 ms, the context
  valid) that reaches the ceiling of \<open>maxWait\<close> = 600000 ms without \<open>stableThreshold\<close> = 4
  consecutive identical non-empty samples before it, the loop is left by its \<open>while\<close>
  condition at the ceiling, after \<open>ceiling_ticks\<close> = 1200 samples: nothing has been sent,
  the baseline is as before, nothing is raised, and the script is back in the state it
  was in before the call, the flag \<open>isCapturing\<close> cleared. And whatever the clock and the
  context do, a session on such samples that ends has ended silently.
\<close>

theorem timeout_is_silent:
  assumes "\<not> has_stable_run stableThreshold (take ceiling_ticks cs)"
    and "ceiling_ticks < length cs"
    and "\<not> isCapturing sys" and "sessions sys = []"
  shows "capture (lastCapturedContent sys) t0 (simulated t0 cs) =
       Some \<lparr>ending = TimedOut, samples = ceiling_ticks, sent = [],
             baseline = lastCapturedContent sys\<rparr>
     \<and> session_run sys t0 h (simulated t0 cs) = sys
     \<and> \<not> isCapturing (session_run sys t0 h (simulated t0 cs))
     \<and> outbox (session_run sys t0 h (simulated t0 cs)) = outbox sys
     \<and> (\<not> has_stable_run stableThreshold (map content ts) \<and> capture lc t1 ts = Some r \<longrightarrow>
          (ending r = TimedOut \<or> ending r = Cancelled) \<and> sent r = [] \<and> baseline r = lc)"
proof -
  have g: "\<not> has_stable_run stableThreshold (map content ts) \<and> capture lc t1 ts = Some r \<longrightarrow>
          (ending r = TimedOut \<or> ending r = Cancelled) \<and> sent r = [] \<and> baseline r = lc"
    using unstable_session_is_silent by blast
  have c: "capture (lastCapturedContent sys) t0 (simulated t0 cs) =
       Some \<lparr>ending = TimedOut, samples = ceiling_ticks, sent = [],
             baseline = lastCapturedContent sys\<rparr>"
    using assms(1,2) by (rule simulated_timeout)
  have "session_run sys t0 h (simulated t0 cs) = sys"
    using session_run_link [OF assms(3,4) c, of h] by simp
  with c assms(3) g show ?thesis by simp
qed

theorem timeout_is_silent_witness:
  "capture [] 0 (simulated 0 (growing 1201)) =
     Some \<lparr>ending = TimedOut, samples = 1200, sent = [], baseline = []\<rparr>
   \<and> session_run initial 0 \<lparr>now = 600500, ctxValid = True\<rparr> (simulated 0 (growing 1201)) = initial
   \<and> isCapturing initial = False"
proof -
  have "take ceiling_ticks (growing 1201) = growing 1200"
    by (simp add: ceiling_ticks_eq take_growing)
  then have 1: "\<not> has_stable_run stableThreshold (take ceiling_ticks (growing 1201))"
    by (simp only: growing_no_run not_False_eq_True)
  have 2: "ceiling_ticks < length (growing 1201)"
    by (simp add: ceiling_ticks_eq)
  have 3: "\<not> isCapturing initial" and 4: "sessions initial = []"
    by (simp_all add: initial_def)
  from timeout_is_silent [OF 1 2 3 4, of 0 "\<lparr>now = 600500, ctxValid = True\<rparr>"]
  show ?thesis
    by (simp add: ceiling_ticks_eq initial_def)
qed

section \<open>The claims: emission, cancellation, mutual exclusion\<close>

text \<open>
  C3, as amended. A session that reaches the stability threshold on the sample \<open>v\<close>: if
  \<open>v\<close> is the baseline, it sends nothing and leaves the baseline as it is; otherwise it
  sets the baseline to \<open>v\<close> and hands one RESPONSE_CAPTURED carrying \<open>v\<close> to the guarded
  sender, which sends it if the context is valid at that moment and the channel does not
  throw, and drops it otherwise. A session that ends in any other way sends nothing and
  leaves the baseline as it is. So a session sends at most one RESPONSE_CAPTURED.
\<close>

theorem suppression_law:
  assumes "capture lc t0 ts = Some r"
  shows "length (sent r) \<le> 1
    \<and> (ending r \<noteq> Completed \<longrightarrow> sent r = [] \<and> baseline r = lc)
    \<and> (ending r = Completed \<longrightarrow>
         0 < samples r \<and> samples r \<le> length ts \<and>
         (content (ts ! (samples r - 1)) = lc \<longrightarrow> sent r = [] \<and> baseline r = lc) \<and>
         (content (ts ! (samples r - 1)) \<noteq> lc \<longrightarrow>
            baseline r = content (ts ! (samples r - 1)) \<and>
            sent r = (if ctxValidAtSend (body (ts ! (samples r - 1)))
                         \<and> sendThrows (body (ts ! (samples r - 1))) = None
                      then [RESPONSE_CAPTURED AI_TYPE (content (ts ! (samples r - 1)))]
                      else [])))"
  using sampling_loop_outcome [OF assms [unfolded capture_def]] by auto

theorem suppression_law_witness:
  "capture (js ''ABC'') 0 (simulated 0 [js ''ABC'', js ''ABC'', js ''ABC'', js ''ABC'', js ''ABC'']) =
       Some \<lparr>ending = Completed, samples = 5, sent = [], baseline = js ''ABC''\<rparr>
   \<and> capture [] 0 (simulated 0 [js ''ABC'', js ''ABC'', js ''ABC'', js ''ABC'', js ''ABC'']) =
       Some \<lparr>ending = Completed, samples = 5, sent = [RESPONSE_CAPTURED (js ''perplexity'') (js ''ABC'')],
             baseline = js ''ABC''\<rparr>
   \<and> length [RESPONSE_CAPTURED (js ''perplexity'') (js ''ABC'')] \<le> 1"
proof -
  let ?ts = "simulated 0 [js ''ABC'', js ''ABC'', js ''ABC'', js ''ABC'', js ''ABC'']"
  let ?r = "\<lparr>ending = Completed, samples = 5, sent = [], baseline = js ''ABC''\<rparr>"
  let ?r' = "\<lparr>ending = Completed, samples = 5, sent = [RESPONSE_CAPTURED (js ''perplexity'') (js ''ABC'')],
             baseline = js ''ABC''\<rparr>"
  have a: "capture (js ''ABC'') 0 ?ts = Some ?r"
    by (simp add: capture_def simulated_def simulated_tick_def new_session_def loop_head_def
        loop_body_eq next_locals_def maxWait_def checkInterval_def stableThreshold_def
        sampled_def Let_def)
  have b: "capture [] 0 ?ts = Some ?r'"
    by (simp add: capture_def simulated_def simulated_tick_def new_session_def loop_head_def
        loop_body_eq next_locals_def maxWait_def checkInterval_def stableThreshold_def
        sampled_def Let_def AI_TYPE_def)
  from suppression_law [OF b] have "length (sent ?r') \<le> 1" by blast
  with suppression_law [OF a] a b show ?thesis by simp
qed

text \<open>
  C3 as stated fails: the context is invalidated during the sleep before the fifth
  sample. The session reaches the threshold on "ABC", which is not the baseline, and no
  RESPONSE_CAPTURED is sent.
\<close>

theorem suppression_law_counterexample:
  "capture [] 0
     (simulated 0 [js ''ABC'', js ''ABC'', js ''ABC'', js ''ABC''] @
      [\<lparr>head = \<lparr>now = 2000, ctxValid = True\<rparr>,
        body = \<lparr>response = Some (js ''ABC''), ctxValidAtSend = False, sendThrows = None\<rparr>\<rparr>]) =
     Some \<lparr>ending = Completed, samples = 5, sent = [], baseline = js ''ABC''\<rparr>"
  by (simp add: capture_def simulated_def simulated_tick_def new_session_def loop_head_def
      loop_body_def or_empty_def safeSendMessage_def maxWait_def checkInterval_def
      stableThreshold_def sampled_def Let_def)

text \<open>
  C9. When a session reaches the threshold on a sample \<open>v\<close> that is not the baseline,
  \<open>lastCapturedContent\<close> becomes \<open>v\<close> whether or not the message goes out: also when the
  guarded sender skips it because the context is invalid, and when the channel throws.
  A later session that starts from that baseline and stabilises on \<open>v\<close> again sends
  nothing, so \<open>v\<close> never reaches the coordinator: after the first session the script's
  state differs from the one before only in \<open>lastCapturedContent\<close>, and the second
  session leaves it as it finds it.
\<close>

theorem baseline_set_without_delivery:
  assumes "capture lc t0 ts = Some r" and "ending r = Completed"
    and "content (ts ! (samples r - 1)) \<noteq> lc"
    and "\<not> ctxValidAtSend (body (ts ! (samples r - 1))) \<or> sendThrows (body (ts ! (samples r - 1))) \<noteq> None"
    and "capture (baseline r) t1 us = Some r'" and "ending r' = Completed"
    and "content (us ! (samples r' - 1)) = content (ts ! (samples r - 1))"
    and "\<not> isCapturing sys" and "sessions sys = []" and "lastCapturedContent sys = lc"
  shows "sent r = [] \<and> baseline r = content (ts ! (samples r - 1))
       \<and> sent r' = [] \<and> baseline r' = content (ts ! (samples r - 1))
       \<and> session_run sys t0 h ts = sys\<lparr>lastCapturedContent := content (ts ! (samples r - 1))\<rparr>
       \<and> session_run (session_run sys t0 h ts) t1 h' us = session_run sys t0 h ts"
proof -
  let ?v = "content (ts ! (samples r - 1))"
  have 1: "sent r = [] \<and> baseline r = ?v"
    using sampling_loop_outcome [OF assms(1) [unfolded capture_def]] assms(2,3,4) by auto
  have 2: "sent r' = [] \<and> baseline r' = content (us ! (samples r' - 1))"
    using sampling_loop_outcome [OF assms(5) [unfolded capture_def]] assms(6,7) 1 by auto
  have c1: "capture (lastCapturedContent sys) t0 ts = Some r"
    using assms(1,10) by simp
  have 3: "session_run sys t0 h ts = sys\<lparr>lastCapturedContent := ?v\<rparr>"
    using session_run_link [OF assms(8,9) c1, of h] 1 by simp
  let ?sys' = "sys\<lparr>lastCapturedContent := ?v\<rparr>"
  have "capture (lastCapturedContent ?sys') t1 us = Some r'"
    using assms(5) 1 by simp
  moreover have "\<not> isCapturing ?sys'" "sessions ?sys' = []"
    using assms(8,9) by simp_all
  ultimately have "session_run ?sys' t1 h' us =
      ?sys'\<lparr>lastCapturedContent := baseline r', outbox := outbox ?sys' @ sent r'\<rparr>"
    by (intro session_run_link) simp_all
  with 2 assms(7) have 4: "session_run ?sys' t1 h' us = ?sys'"
    by simp
  from 1 2 3 4 assms(7) show ?thesis by simp
qed

theorem baseline_set_without_delivery_witness:
  "capture [] 0
     (simulated 0 [js ''ABC'', js ''ABC'', js ''ABC'', js ''ABC''] @
      [\<lparr>head = \<lparr>now = 2000, ctxValid = True\<rparr>,
        body = \<lparr>response = Some (js ''ABC''), ctxValidAtSend = True, sendThrows = Some (js ''closed'')\<rparr>\<rparr>]) =
     Some \<lparr>ending = Completed, samples = 5, sent = [], baseline = js ''ABC''\<rparr>
   \<and> capture (js ''ABC'') 9000 (simulated 9000 [js ''ABC'', js ''ABC'', js ''ABC'', js ''ABC'', js ''ABC'']) =
     Some \<lparr>ending = Completed, samples = 5, sent = [], baseline = js ''ABC''\<rparr>
   \<and> session_run initial 0 \<lparr>now = 2500, ctxValid = True\<rparr>
       (simulated 0 [js ''ABC'', js ''ABC'', js ''ABC'', js ''ABC''] @
        [\<lparr>head = \<lparr>now = 2000, ctxValid = True\<rparr>,
          body = \<lparr>response = Some (js ''ABC''), ctxValidAtSend = True, sendThrows = Some (js ''closed'')\<rparr>\<rparr>]) =
     initial\<lparr>lastCapturedContent := js ''ABC''\<rparr>"
proof -
  let ?ts = "simulated 0 [js ''ABC'', js ''ABC'', js ''ABC'', js ''ABC''] @
      [\<lparr>head = \<lparr>now = 2000, ctxValid = True\<rparr>,
        body = \<lparr>response = Some (js ''ABC''), ctxValidAtSend = True, sendThrows = Some (js ''closed'')\<rparr>\<rparr>]"
  let ?us = "simulated 9000 [js ''ABC'', js ''ABC'', js ''ABC'', js ''ABC'', js ''ABC'']"
  let ?r = "\<lparr>ending = Completed, samples = 5, sent = [], baseline = js ''ABC''\<rparr>"
  have a: "capture [] 0 ?ts = Some ?r"
    by (simp add: capture_def simulated_def simulated_tick_def new_session_def loop_head_def
        loop_body_def or_empty_def safeSendMessage_def runtime_sendMessage_def maxWait_def
        checkInterval_def stableThreshold_def sampled_def Let_def)
  have b: "capture (baseline ?r) 9000 ?us = Some ?r"
    by (simp add: capture_def simulated_def simulated_tick_def new_session_def loop_head_def
        loop_body_def or_empty_def maxWait_def checkInterval_def stableThreshold_def
        sampled_def Let_def)
  have c: "ending ?r = Completed" by simp
  have d: "content (?ts ! (samples ?r - 1)) \<noteq> []"
    by (simp add: simulated_def content_def or_empty_def nth_append)
  have e: "\<not> ctxValidAtSend (body (?ts ! (samples ?r - 1)))
         \<or> sendThrows (body (?ts ! (samples ?r - 1))) \<noteq> None"
    by (simp add: simulated_def nth_append)
  have f: "content (?us ! (samples ?r - 1)) = content (?ts ! (samples ?r - 1))"
    by (simp add: simulated_def simulated_tick_def content_def or_empty_def nth_append)
  have g: "\<not> isCapturing initial" "sessions initial = []" "lastCapturedContent initial = []"
    by (simp_all add: initial_def)
  have v: "content (?ts ! (samples ?r - 1)) = js ''ABC''"
    by (simp add: simulated_def content_def or_empty_def nth_append)
  from baseline_set_without_delivery [OF a c d e b c f g, of "\<lparr>now = 2500, ctxValid = True\<rparr>"] a b v
  show ?thesis by simp
qed

lemma ends_by_invalid_head:
  "k < length ts \<Longrightarrow> \<not> ctxValid (head (ts ! k)) \<Longrightarrow>
   \<exists>r. sampling_loop lc s ts = Some r \<and> samples r \<le> k"
proof (induction ts arbitrary: s k)
  case Nil
  then show ?case by simp
next
  case (Cons t ts)
  show ?case
  proof (cases "loop_head s (head t)")
    case (Some e)
    then show ?thesis by simp
  next
    case None
    then have "ctxValid (head t)"
      by (auto simp: loop_head_def split: if_splits)
    with Cons.prems obtain k' where k: "k = Suc k'"
      by (cases k) auto
    show ?thesis
    proof (cases "loop_body lc s (body t)")
      case (Finished e out lc')
      with None k show ?thesis by simp
    next
      case (Continue s')
      from Cons.prems k have "k' < length ts" "\<not> ctxValid (head (ts ! k'))" by simp_all
      from Cons.IH [OF this, of s']
      obtain r' where "sampling_loop lc s' ts = Some r'" "samples r' \<le> k'" by blast
      with None Continue k show ?thesis by (simp add: sampled_def)
    qed
  qed
qed

lemma never_raised: "sampling_loop lc s ts = Some r \<Longrightarrow> ending r \<noteq> Raised e"
  using sampling_loop_outcome [of lc s ts r]
  by (auto simp: loop_head_def split: if_splits)

text \<open>
  C4. If the context is found invalid at the head of iteration \<open>k\<close>, the session has
  ended by then: it takes no sample at iteration \<open>k\<close> or later. So when the context
  becomes invalid during the sleep of iteration \<open>j\<close> and stays so, the session ends at
  the latest at the next head, one sleep later, and if it was still running during that
  sleep it sends nothing at all. Whenever a session does send, the context was valid at
  the moment of sending. The guarded sender sends nothing when the context is invalid
  and never throws, so no session ends by raising.
\<close>

theorem cancellation:
  "(k < length ts \<and> \<not> ctxValid (head (ts ! k)) \<longrightarrow>
      (\<exists>r. capture lc t0 ts = Some r \<and> samples r \<le> k))
   \<and> (Suc j < length ts \<and> \<not> ctxValidAtSend (body (ts ! j)) \<and> \<not> ctxValid (head (ts ! Suc j)) \<longrightarrow>
      (\<exists>r. capture lc t0 ts = Some r \<and> samples r \<le> Suc j \<and> (samples r = Suc j \<longrightarrow> sent r = [])))
   \<and> (capture lc t0 ts = Some r \<and> sent r \<noteq> [] \<longrightarrow>
      0 < samples r \<and> samples r \<le> length ts \<and> ctxValidAtSend (body (ts ! (samples r - 1))))
   \<and> (capture lc t0 ts = Some r \<longrightarrow> ending r \<noteq> Raised e)
   \<and> safeSendMessage False throws m = Normal []
   \<and> safeSendMessage valid throws m \<noteq> Throw e"
proof -
  have guard: "0 < samples r \<and> samples r \<le> length ts \<and> ctxValidAtSend (body (ts ! (samples r - 1)))"
    if "capture lc t0 ts = Some r" "sent r \<noteq> []" for r
    using sampling_loop_outcome [OF that(1) [unfolded capture_def]] that(2)
    by (auto split: if_splits)
  have a: "\<exists>r. capture lc t0 ts = Some r \<and> samples r \<le> k"
    if "k < length ts" "\<not> ctxValid (head (ts ! k))" for k
    unfolding capture_def using that by (rule ends_by_invalid_head)
  have b: "\<exists>r. capture lc t0 ts = Some r \<and> samples r \<le> Suc j \<and> (samples r = Suc j \<longrightarrow> sent r = [])"
    if "Suc j < length ts" "\<not> ctxValidAtSend (body (ts ! j))" "\<not> ctxValid (head (ts ! Suc j))"
  proof -
    from a [OF that(1,3)] obtain r where r: "capture lc t0 ts = Some r" "samples r \<le> Suc j"
      by blast
    have "sent r = []" if "samples r = Suc j"
    proof (rule ccontr)
      assume "sent r \<noteq> []"
      from guard [OF r(1) this] that \<open>\<not> ctxValidAtSend (body (ts ! j))\<close>
      show False by simp
    qed
    with r show ?thesis by blast
  qed
  have c: "capture lc t0 ts = Some r \<longrightarrow> ending r \<noteq> Raised e"
    unfolding capture_def using never_raised by blast
  have d: "safeSendMessage False throws m = Normal []" "safeSendMessage valid throws m \<noteq> Throw e"
    by (simp_all add: safeSendMessage_cases)
  from a b c d guard show ?thesis by blast
qed

theorem cancellation_witness:
  "capture [] 0
     (simulated 0 [js ''ABC'', js ''ABC''] @
      [\<lparr>head = \<lparr>now = 1000, ctxValid = False\<rparr>,
        body = \<lparr>response = Some (js ''ABC''), ctxValidAtSend = False, sendThrows = None\<rparr>\<rparr>]) =
     Some \<lparr>ending = Cancelled, samples = 2, sent = [], baseline = []\<rparr>
   \<and> capture [] 0
     (simulated 0 [js ''ABC'', js ''ABC'', js ''ABC'', js ''ABC''] @
      [\<lparr>head = \<lparr>now = 2000, ctxValid = True\<rparr>,
        body = \<lparr>response = Some (js ''ABC''), ctxValidAtSend = False, sendThrows = None\<rparr>\<rparr>,
       \<lparr>head = \<lparr>now = 2500, ctxValid = False\<rparr>,
        body = \<lparr>response = Some (js ''ABC''), ctxValidAtSend = False, sendThrows = None\<rparr>\<rparr>]) =
     Some \<lparr>ending = Completed, samples = 5, sent = [], baseline = js ''ABC''\<rparr>
   \<and> ctxValidAtSend (body (simulated 0 [js ''ABC'', js ''ABC'', js ''ABC'', js ''ABC'', js ''ABC''] ! 4))"
proof -
  let ?ts = "simulated 0 [js ''ABC'', js ''ABC''] @
      [\<lparr>head = \<lparr>now = 1000, ctxValid = False\<rparr>,
        body = \<lparr>response = Some (js ''ABC''), ctxValidAtSend = False, sendThrows = None\<rparr>\<rparr>]"
  let ?us = "simulated 0 [js ''ABC'', js ''ABC'', js ''ABC'', js ''ABC''] @
      [\<lparr>head = \<lparr>now = 2000, ctxValid = True\<rparr>,
        body = \<lparr>response = Some (js ''ABC''), ctxValidAtSend = False, sendThrows = None\<rparr>\<rparr>,
       \<lparr>head = \<lparr>now = 2500, ctxValid = False\<rparr>,
        body = \<lparr>response = Some (js ''ABC''), ctxValidAtSend = False, sendThrows = None\<rparr>\<rparr>]"
  let ?vs = "simulated 0 [js ''ABC'', js ''ABC'', js ''ABC'', js ''ABC'', js ''ABC'']"
  let ?r = "\<lparr>ending = Cancelled, samples = 2, sent = [], baseline = []\<rparr>"
  let ?q = "\<lparr>ending = Completed, samples = 5, sent = [], baseline = js ''ABC''\<rparr>"
  let ?p = "\<lparr>ending = Completed, samples = 5, sent = [RESPONSE_CAPTURED AI_TYPE (js ''ABC'')],
            baseline = js ''ABC''\<rparr>"
  have a: "capture [] 0 ?ts = Some ?r"
    by (simp add: capture_def simulated_def simulated_tick_def new_session_def loop_head_def
        loop_body_eq next_locals_def maxWait_def checkInterval_def stableThreshold_def
        sampled_def Let_def)
  have b: "capture [] 0 ?us = Some ?q"
    by (simp add: capture_def simulated_def simulated_tick_def new_session_def loop_head_def
        loop_body_eq next_locals_def maxWait_def checkInterval_def stableThreshold_def
        sampled_def Let_def)
  have c: "capture [] 0 ?vs = Some ?p"
    by (simp add: capture_def simulated_def simulated_tick_def new_session_def loop_head_def
        loop_body_eq next_locals_def maxWait_def checkInterval_def stableThreshold_def
        sampled_def Let_def)
  have h1: "2 < length ?ts \<and> \<not> ctxValid (head (?ts ! 2))"
    by (simp add: simulated_def nth_append)
  have h2: "Suc 4 < length ?us \<and> \<not> ctxValidAtSend (body (?us ! 4)) \<and> \<not> ctxValid (head (?us ! Suc 4))"
    by (simp add: simulated_def nth_append)
  have h3: "capture [] 0 ?vs = Some ?p \<and> sent ?p \<noteq> []"
    using c by simp
  from cancellation [of 2 ?ts "[]" 0] h1 a
  have 1: "samples ?r \<le> 2" by simp
  from cancellation [of _ ?us "[]" 0 4] h2 b
  have 2: "samples ?q = Suc 4 \<longrightarrow> sent ?q = []" by simp
  from cancellation [of _ ?vs "[]" 0 _ ?p] h3
  have 3: "ctxValidAtSend (body (?vs ! (samples ?p - 1)))" by blast
  from a b 3 show ?thesis by simp
qed

subsection \<open>One session at a time\<close>

lemma waitForStreamingComplete_single:
  assumes "length (sessions sys) \<le> 1" "isCapturing sys \<longleftrightarrow> sessions sys \<noteq> []"
  shows "length (sessions (waitForStreamingComplete sys t0 h)) \<le> 1
       \<and> (isCapturing (waitForStreamingComplete sys t0 h) \<longleftrightarrow>
            sessions (waitForStreamingComplete sys t0 h) \<noteq> [])"
  using assms by (auto simp: waitForStreamingComplete_def Let_def split: option.splits)

lemma step_single:
  assumes "length (sessions sys) \<le> 1" "isCapturing sys \<longleftrightarrow> sessions sys \<noteq> []"
  shows "length (sessions (step sys ev)) \<le> 1
       \<and> (isCapturing (step sys ev) \<longleftrightarrow> sessions (step sys ev) \<noteq> [])"
proof (cases ev)
  case (Message req d)
  with assms show ?thesis
    by (auto simp: onMessage_def split: request.splits prod.splits sum.splits)
next
  case (InjectWake i t0 h)
  let ?sys1 = "sys\<lparr>injections := take i (injections sys) @ drop (Suc i) (injections sys),
                   writes := writes sys @ [DispatchKeydownEnter (injections sys ! i)]\<rparr>"
  have "length (sessions ?sys1) \<le> 1" "isCapturing ?sys1 \<longleftrightarrow> sessions ?sys1 \<noteq> []"
    using assms by simp_all
  from waitForStreamingComplete_single [OF this, of t0 h] assms InjectWake
  show ?thesis
    by (simp add: injectMessage_resume_def Let_def)
next
  case (NodeAdded n t0 h)
  with assms waitForStreamingComplete_single [OF assms, of t0 h] show ?thesis
    by (simp add: checkForResponse_def)
next
  case (SessionWake i b h)
  show ?thesis
  proof (cases "i < length (sessions sys)")
    case False
    with assms SessionWake show ?thesis by (simp add: session_wake_def)
  next
    case True
    with assms(1) obtain s where s: "sessions sys = [s]" and i: "i = 0"
      by (cases "sessions sys") auto
    with assms SessionWake show ?thesis
      by (auto simp: session_wake_def split: body_result.splits option.splits)
  qed
qed

lemma run_single:
  "length (sessions sys) \<le> 1 \<Longrightarrow> (isCapturing sys \<longleftrightarrow> sessions sys \<noteq> []) \<Longrightarrow>
   length (sessions (run sys evs)) \<le> 1 \<and> (isCapturing (run sys evs) \<longleftrightarrow> sessions (run sys evs) \<noteq> [])"
proof (induction evs arbitrary: sys)
  case Nil
  then show ?case by (simp add: run_def)
next
  case (Cons ev evs)
  from step_single [OF Cons.prems, of ev]
  have "length (sessions (run (step sys ev) evs)) \<le> 1 \<and>
        (isCapturing (run (step sys ev) evs) \<longleftrightarrow> sessions (run (step sys ev) evs) \<noteq> [])"
    by (intro Cons.IH) simp_all
  then show ?case by (simp add: run_def)
qed

lemma emission_ends_session:
  assumes "length (sessions sys) \<le> 1" "outbox (step sys ev) \<noteq> outbox sys"
  shows "(\<exists>m. outbox (step sys ev) = outbox sys @ [m])
       \<and> sessions (step sys ev) = [] \<and> \<not> isCapturing (step sys ev)"
proof (cases ev)
  case (Message req d)
  with assms(2) show ?thesis
    by (auto simp: onMessage_def split: request.splits prod.splits sum.splits)
next
  case (InjectWake i t0 h)
  with assms(2) show ?thesis
    by (auto simp: injectMessage_resume_def waitForStreamingComplete_def Let_def
             split: if_splits option.splits)
next
  case (NodeAdded n t0 h)
  with assms(2) show ?thesis
    by (auto simp: checkForResponse_def waitForStreamingComplete_def Let_def
             split: if_splits option.splits)
next
  case (SessionWake i b h)
  show ?thesis
  proof (cases "i < length (sessions sys)")
    case False
    with assms(2) SessionWake show ?thesis by (simp add: session_wake_def)
  next
    case True
    with assms(1) obtain s where s: "sessions sys = [s]" and i: "i = 0"
      by (cases "sessions sys") auto
    with assms(2) SessionWake show ?thesis
      by (auto simp: session_wake_def loop_body_eq Let_def split: if_splits option.splits)
  qed
qed

text \<open>
  C2. While \<open>isCapturing\<close> is set, a call of \<open>waitForStreamingComplete\<close> returns at once
  and changes nothing, whether it comes from \<open>checkForResponse\<close> (which then does not
  even look at the node) or from the end of \<open>injectMessage\<close> (which still presses Enter
  and answers its request, but starts nothing). In every state the script can get into,
  at most one session exists, and \<open>isCapturing\<close> is set exactly when one does; an added
  node while a session is active leaves no trace in the rest of the run. A message goes
  out only in a step that ends the one session and clears the flag, so overlapping
  triggers cannot make one answer be emitted twice.
\<close>

theorem mutual_exclusion:
  "(isCapturing sys \<longrightarrow>
      waitForStreamingComplete sys t0 h = sys
      \<and> checkForResponse sys n t0 h = sys
      \<and> sessions (injectMessage_resume sys i t0 h) = sessions sys
      \<and> isCapturing (injectMessage_resume sys i t0 h)
      \<and> outbox (injectMessage_resume sys i t0 h) = outbox sys
      \<and> lastCapturedContent (injectMessage_resume sys i t0 h) = lastCapturedContent sys)
   \<and> length (sessions (run initial evs)) \<le> 1
   \<and> (isCapturing (run initial evs) \<longleftrightarrow> sessions (run initial evs) \<noteq> [])
   \<and> (isCapturing (run initial evs) \<longrightarrow>
        run initial (evs @ NodeAdded n t0 h # evs') = run initial (evs @ evs'))
   \<and> (outbox (step (run initial evs) ev) \<noteq> outbox (run initial evs) \<longrightarrow>
        (\<exists>m. outbox (step (run initial evs) ev) = outbox (run initial evs) @ [m])
        \<and> sessions (step (run initial evs) ev) = []
        \<and> \<not> isCapturing (step (run initial evs) ev))"
proof -
  have inv: "length (sessions (run initial evs)) \<le> 1
           \<and> (isCapturing (run initial evs) \<longleftrightarrow> sessions (run initial evs) \<noteq> [])"
    by (rule run_single) (simp_all add: initial_def)
  have refuse: "isCapturing sys \<longrightarrow>
      waitForStreamingComplete sys t0 h = sys
      \<and> checkForResponse sys n t0 h = sys
      \<and> sessions (injectMessage_resume sys i t0 h) = sessions sys
      \<and> isCapturing (injectMessage_resume sys i t0 h)
      \<and> outbox (injectMessage_resume sys i t0 h) = outbox sys
      \<and> lastCapturedContent (injectMessage_resume sys i t0 h) = lastCapturedContent sys"
    by (simp add: waitForStreamingComplete_def checkForResponse_def injectMessage_resume_def Let_def)
  have absorb: "isCapturing (run initial evs) \<longrightarrow>
        run initial (evs @ NodeAdded n t0 h # evs') = run initial (evs @ evs')"
  proof
    assume "isCapturing (run initial evs)"
    then have "step (run initial evs) (NodeAdded n t0 h) = run initial evs"
      by (simp add: checkForResponse_def)
    then show "run initial (evs @ NodeAdded n t0 h # evs') = run initial (evs @ evs')"
      by (simp add: run_def)
  qed
  have emit: "outbox (step (run initial evs) ev) \<noteq> outbox (run initial evs) \<longrightarrow>
        (\<exists>m. outbox (step (run initial evs) ev) = outbox (run initial evs) @ [m])
        \<and> sessions (step (run initial evs) ev) = []
        \<and> \<not> isCapturing (step (run initial evs) ev)"
    using emission_ends_session inv by blast
  from inv refuse absorb emit show ?thesis by blast
qed

theorem mutual_exclusion_witness:
  "isCapturing (run initial [NodeAdded answer_node 0 \<lparr>now = 0, ctxValid = True\<rparr>])
   \<and> sessions (run initial [NodeAdded answer_node 0 \<lparr>now = 0, ctxValid = True\<rparr>]) = [new_session 0]
   \<and> run initial ([NodeAdded answer_node 0 \<lparr>now = 0, ctxValid = True\<rparr>]
                  @ [NodeAdded answer_node 300 \<lparr>now = 300, ctxValid = True\<rparr>]) =
     run initial [NodeAdded answer_node 0 \<lparr>now = 0, ctxValid = True\<rparr>]
   \<and> waitForStreamingComplete (run initial [NodeAdded answer_node 0 \<lparr>now = 0, ctxValid = True\<rparr>])
        300 \<lparr>now = 300, ctxValid = True\<rparr> =
     run initial [NodeAdded answer_node 0 \<lparr>now = 0, ctxValid = True\<rparr>]"
proof -
  let ?evs = "[NodeAdded answer_node 0 \<lparr>now = 0, ctxValid = True\<rparr>]"
  let ?h = "\<lparr>now = 300, ctxValid = True\<rparr>"
  have s: "run initial ?evs = initial\<lparr>isCapturing := True, sessions := [new_session 0]\<rparr>"
    by (simp add: run_def checkForResponse_def waitForStreamingComplete_def initial_def
        responseSelectors_def answer_node_def loop_head_def new_session_def maxWait_def)
  then have c: "isCapturing (run initial ?evs)" by simp
  note me = mutual_exclusion [where sys = "run initial ?evs" and ?t0.0 = 300 and h = ?h
        and n = answer_node and evs = ?evs and evs' = "[]"]
  from me c have 1: "waitForStreamingComplete (run initial ?evs) 300 ?h = run initial ?evs"
    by blast
  from me c have 2: "run initial (?evs @ NodeAdded answer_node 300 ?h # []) = run initial (?evs @ [])"
    by blast
  from c s 1 2 show ?thesis by simp
qed

end
